theory Spec2Isabelle
  imports Main "HOL-Library.Word" "HOL-Library.Multiset" "HOL-Library.List_Lexorder"
begin

section \<open>Data model\<close>

text \<open>
  The program is the KWIC index of \<^verbatim>\<open>m2/main.go\<close>: a line storage, a circular
  shifter and an alphabetizer, all three behind the interface \<^verbatim>\<open>lineHolder\<close>.
  Go's \<^verbatim>\<open>byte\<close> is an 8-bit word. Go's \<^verbatim>\<open>int\<close> is modelled as \<open>int\<close>: a length
  and a counter of a loop are bounded by the size of a slice (in \<^verbatim>\<open>input\<close>, by the
  number of bytes read), so they cannot overflow; an index \<^verbatim>\<open>i - 1\<close> that wraps
  around is out of range as the negative number is; where the code adds two numbers
  that a caller chooses (the word and the \<^verbatim>\<open>startWord\<close> of a shift), the 64-bit
  wrap-around is written out. A run-time panic is a value of the type \<open>panic\<close>.
\<close>

type_synonym byte = "8 word"

datatype panic =
    ERLSBL  \<comment> \<open>"Line not last or just past last (ERLSBL)"\<close>
  | ERLSBW  \<comment> \<open>"Word not last or just past last (ERLSBW)"\<close>
  | ERLSBC  \<comment> \<open>"Char not just past last (ERLSBC)"\<close>
  | IndexOutOfRange  \<comment> \<open>Go's run-time error for a slice index out of range\<close>

text \<open>\<^verbatim>\<open>type shift struct { line int; startWord int }\<close>\<close>

record shift =
  line :: int
  startWord :: int

text \<open>
  The three implementations of \<^verbatim>\<open>lineHolder\<close>, with their fields in the order of the
  source: \<^verbatim>\<open>lineStorage{array}\<close>, \<^verbatim>\<open>circularShifter{storage, shifts}\<close> and
  \<^verbatim>\<open>alphabetizer{storage, perm}\<close>.
\<close>

datatype lineHolder =
    LineStorage "byte list list list"
  | CircularShifter lineHolder "shift list"
  | Alphabetizer lineHolder "int list"

text \<open>
  \<^verbatim>\<open>s[i]\<close> on a slice, with Go's 0-based \<^verbatim>\<open>int\<close> index: a panic outside
  \<open>0 \<le> i < len(s)\<close>.
\<close>

definition index :: "'a list \<Rightarrow> int \<Rightarrow> 'a option" where
  "index s i = (if 0 \<le> i \<and> i < int (length s) then Some (s ! nat i) else None)"

text \<open>
  Go's \<^verbatim>\<open>int\<close> has 64 bits and its arithmetic wraps around in two's complement:
  \<open>wrap64 x\<close> is the \<^verbatim>\<open>int\<close> that the exact result \<open>x\<close> is stored as.
\<close>

definition wrap64 :: "int \<Rightarrow> int" where
  "wrap64 x = (x + 2 ^ 63) mod 2 ^ 64 - 2 ^ 63"

section \<open>The read operations of lineHolder\<close>

text \<open>\<^verbatim>\<open>lines()\<close>: never panics.\<close>

fun lines :: "lineHolder \<Rightarrow> int" where
  "lines (LineStorage array) = int (length array)"
| "lines (CircularShifter storage shifts) = int (length shifts)"
| "lines (Alphabetizer storage perm) = lines storage"

text \<open>\<^verbatim>\<open>words(line)\<close>; \<open>None\<close> is the index panic.\<close>

fun words :: "lineHolder \<Rightarrow> int \<Rightarrow> int option" where
  "words (LineStorage array) ln =
     (case index array (ln - 1) of None \<Rightarrow> None
      | Some l \<Rightarrow> Some (int (length l)))"
| "words (CircularShifter storage shifts) ln =
     (case index shifts (ln - 1) of None \<Rightarrow> None
      | Some sh \<Rightarrow> words storage (line sh))"
| "words (Alphabetizer storage perm) ln =
     (case index perm (ln - 1) of None \<Rightarrow> None
      | Some p \<Rightarrow> words storage p)"

text \<open>
  \<^verbatim>\<open>chars(line, word)\<close>. The shifter adds \<^verbatim>\<open>startWord\<close> to the word (a 64-bit
  addition) and, if the sum is past the last word, subtracts the number of words once;
  the subtraction cannot overflow, the number of words being a length and below the sum.
\<close>

fun chars :: "lineHolder \<Rightarrow> int \<Rightarrow> int \<Rightarrow> int option" where
  "chars (LineStorage array) ln wd =
     (case index array (ln - 1) of None \<Rightarrow> None
      | Some l \<Rightarrow>
          (case index l (wd - 1) of None \<Rightarrow> None
           | Some w \<Rightarrow> Some (int (length w))))"
| "chars (CircularShifter storage shifts) ln wd =
     (case index shifts (ln - 1) of None \<Rightarrow> None
      | Some sh \<Rightarrow>
          (let wd1 = wrap64 (wd + startWord sh) in
           case words storage (line sh) of None \<Rightarrow> None
           | Some ws \<Rightarrow>
               chars storage (line sh) (if wd1 > ws then wd1 - ws else wd1)))"
| "chars (Alphabetizer storage perm) ln wd =
     (case index perm (ln - 1) of None \<Rightarrow> None
      | Some p \<Rightarrow> chars storage p wd)"

text \<open>\<^verbatim>\<open>char(line, word, char)\<close>.\<close>

fun char :: "lineHolder \<Rightarrow> int \<Rightarrow> int \<Rightarrow> int \<Rightarrow> byte option" where
  "char (LineStorage array) ln wd ch =
     (case index array (ln - 1) of None \<Rightarrow> None
      | Some l \<Rightarrow>
          (case index l (wd - 1) of None \<Rightarrow> None
           | Some w \<Rightarrow> index w (ch - 1)))"
| "char (CircularShifter storage shifts) ln wd ch =
     (case index shifts (ln - 1) of None \<Rightarrow> None
      | Some sh \<Rightarrow>
          (let wd1 = wrap64 (wd + startWord sh) in
           case words storage (line sh) of None \<Rightarrow> None
           | Some ws \<Rightarrow>
               char storage (line sh) (if wd1 > ws then wd1 - ws else wd1) ch))"
| "char (Alphabetizer storage perm) ln wd ch =
     (case index perm (ln - 1) of None \<Rightarrow> None
      | Some p \<Rightarrow> char storage p wd ch)"

section \<open>The comparator\<close>

text \<open>
  \<^verbatim>\<open>normalizeChar\<close>: byte arithmetic, \<^verbatim>\<open>'A'\<close> = 65, \<^verbatim>\<open>'Z'\<close> = 90, \<^verbatim>\<open>'a'\<close> = 97,
  \<^verbatim>\<open>'z'\<close> = 122.
\<close>

definition normalizeChar :: "byte \<Rightarrow> byte" where
  "normalizeChar c =
     (if c \<ge> 65 \<and> c \<le> 90 then (c - 65) * 2
      else if c \<ge> 97 \<and> c \<le> 122 then (c - 97) * 2 + 1
      else 0)"

text \<open>
  The loop of \<^verbatim>\<open>wordsLess\<close>, from the value \<open>ch\<close> of its counter; \<open>chars1\<close> and
  \<open>chars2\<close> are read once, before the loop.
\<close>

function wordsLess_loop ::
  "lineHolder \<Rightarrow> int \<Rightarrow> int \<Rightarrow> int \<Rightarrow> int \<Rightarrow> int \<Rightarrow> int \<Rightarrow> int \<Rightarrow> bool option" where
  "wordsLess_loop lh line1 word1 line2 word2 chars1 chars2 ch =
     (if ch > chars1 \<and> ch \<le> chars2 then Some True
      else if ch > chars2 then Some False
      else
        (case char lh line1 word1 ch of None \<Rightarrow> None
         | Some b1 \<Rightarrow>
             (case char lh line2 word2 ch of None \<Rightarrow> None
              | Some b2 \<Rightarrow>
                  (let n1 = normalizeChar b1; n2 = normalizeChar b2 in
                   if n1 < n2 then Some True
                   else if n1 > n2 then Some False
                   else wordsLess_loop lh line1 word1 line2 word2 chars1 chars2 (ch + 1)))))"
  by pat_completeness auto
termination
  by (relation "measure (\<lambda>(lh, line1, word1, line2, word2, chars1, chars2, ch). nat (chars2 + 1 - ch))")
    auto

declare wordsLess_loop.simps [simp del]

definition wordsLess :: "lineHolder \<Rightarrow> int \<Rightarrow> int \<Rightarrow> int \<Rightarrow> int \<Rightarrow> bool option" where
  "wordsLess lh line1 word1 line2 word2 =
     (case chars lh line1 word1 of None \<Rightarrow> None
      | Some chars1 \<Rightarrow>
          (case chars lh line2 word2 of None \<Rightarrow> None
           | Some chars2 \<Rightarrow> wordsLess_loop lh line1 word1 line2 word2 chars1 chars2 1))"

text \<open>The loop of \<^verbatim>\<open>linesLess\<close>, from the value \<open>wd\<close> of its counter.\<close>

function linesLess_loop ::
  "lineHolder \<Rightarrow> int \<Rightarrow> int \<Rightarrow> int \<Rightarrow> int \<Rightarrow> int \<Rightarrow> bool option" where
  "linesLess_loop lh line1 line2 words1 words2 wd =
     (if wd > words1 \<and> wd \<le> words2 then Some True
      else if wd > words2 then Some False
      else
        (case wordsLess lh line1 wd line2 wd of None \<Rightarrow> None
         | Some True \<Rightarrow> Some True
         | Some False \<Rightarrow>
             (case wordsLess lh line2 wd line1 wd of None \<Rightarrow> None
              | Some True \<Rightarrow> Some False
              | Some False \<Rightarrow> linesLess_loop lh line1 line2 words1 words2 (wd + 1))))"
  by pat_completeness auto
termination
  by (relation "measure (\<lambda>(lh, line1, line2, words1, words2, wd). nat (words2 + 1 - wd))")
    auto

declare linesLess_loop.simps [simp del]

definition linesLess :: "lineHolder \<Rightarrow> int \<Rightarrow> int \<Rightarrow> bool option" where
  "linesLess lh line1 line2 =
     (case words lh line1 of None \<Rightarrow> None
      | Some words1 \<Rightarrow>
          (case words lh line2 of None \<Rightarrow> None
           | Some words2 \<Rightarrow> linesLess_loop lh line1 line2 words1 words2 1))"

section \<open>Module 1: line storage\<close>

text \<open>
  \<^verbatim>\<open>setWord(line, word, char, value)\<close> on the array of the storage. The result is the
  panic, if any, and the array as the call leaves it: the three checks come first, then
  the three appends in the order of the source, each reading its slice with Go's index
  check.
\<close>

definition setWord ::
  "byte list list list \<Rightarrow> int \<Rightarrow> int \<Rightarrow> int \<Rightarrow> byte \<Rightarrow> panic option \<times> byte list list list" where
  "setWord array ln wd ch v =
     (let lns = lines (LineStorage array) in
      if ln < lns \<or> ln > lns + 1 then (Some ERLSBL, array)
      else
        (case (if ln = lns then words (LineStorage array) ln else Some 0) of
           None \<Rightarrow> (Some IndexOutOfRange, array)
         | Some ws \<Rightarrow>
             if wd < ws \<or> wd > ws + 1 then (Some ERLSBW, array)
             else
               (case (if ln = lns \<and> wd = ws then chars (LineStorage array) ln wd else Some 0) of
                  None \<Rightarrow> (Some IndexOutOfRange, array)
                | Some cs \<Rightarrow>
                    if ch \<noteq> cs + 1 then (Some ERLSBC, array)
                    else
                      (let array1 = (if ln = lns + 1 then array @ [[]] else array) in
                       case (if wd = ws + 1 then
                               (case index array1 (ln - 1) of None \<Rightarrow> None
                                | Some l \<Rightarrow> Some (array1[nat (ln - 1) := l @ [[]]]))
                             else Some array1) of
                         None \<Rightarrow> (Some IndexOutOfRange, array1)
                       | Some array2 \<Rightarrow>
                           (case index array2 (ln - 1) of
                              None \<Rightarrow> (Some IndexOutOfRange, array2)
                            | Some l \<Rightarrow>
                                (case index l (wd - 1) of
                                   None \<Rightarrow> (Some IndexOutOfRange, array2)
                                 | Some w \<Rightarrow>
                                     (None, array2[nat (ln - 1) := l[nat (wd - 1) := w @ [v]]])))))))"

section \<open>Module 2: input\<close>

text \<open>
  The file is the sequence of results of \<^verbatim>\<open>file.Read(buf)\<close> on the one-byte buffer
  before the end of the file: a byte, nothing (\<^verbatim>\<open>n == 0\<close> with no error), or an error
  other than \<^verbatim>\<open>io.EOF\<close>. The end of the sequence is \<^verbatim>\<open>io.EOF\<close>.
\<close>

datatype read = Byte byte | Nothing | ReadFailure

datatype io_error = OpenError | ReadError

text \<open>
  The loop of \<^verbatim>\<open>input\<close> with its three counters. The result is how the call ends
  (\<open>Inl\<close>: a panic of \<^verbatim>\<open>setWord\<close>; \<open>Inr None\<close>: \<^verbatim>\<open>return nil\<close>;
  \<open>Inr (Some e)\<close>: \<^verbatim>\<open>return err\<close>) and the array of the storage at that moment.
  A space is the byte 32, a newline the byte 10.
\<close>

fun input_loop ::
  "read list \<Rightarrow> byte list list list \<Rightarrow> int \<Rightarrow> int \<Rightarrow> int \<Rightarrow>
     (panic + io_error option) \<times> byte list list list" where
  "input_loop [] array ln wd ch = (Inr None, array)"
| "input_loop (ReadFailure # rs) array ln wd ch = (Inr (Some ReadError), array)"
| "input_loop (Nothing # rs) array ln wd ch = input_loop rs array ln wd ch"
| "input_loop (Byte b # rs) array ln wd ch =
     (if b = 32 then input_loop rs array ln (wd + 1) 1
      else if b = 10 then input_loop rs array (ln + 1) 1 1
      else
        (case setWord array ln wd ch b of
           (Some p, array1) \<Rightarrow> (Inl p, array1)
         | (None, array1) \<Rightarrow> input_loop rs array1 ln wd (ch + 1)))"

text \<open>\<^verbatim>\<open>input(filename, storage)\<close>; \<open>None\<close> is a file that \<^verbatim>\<open>os.Open\<close> cannot open.\<close>

definition input ::
  "read list option \<Rightarrow> byte list list list \<Rightarrow> (panic + io_error option) \<times> byte list list list" where
  "input file array =
     (case file of None \<Rightarrow> (Inr (Some OpenError), array)
      | Some rs \<Rightarrow> input_loop rs array 1 1 1)"

section \<open>Module 3: circular shifter\<close>

text \<open>
  The two loops of \<^verbatim>\<open>newCircularShifter\<close>; both re-read their bound on every
  iteration, as the source does. \<open>None\<close> is a panic of \<^verbatim>\<open>storage.words\<close>.
\<close>

function newCircularShifter_words ::
  "lineHolder \<Rightarrow> int \<Rightarrow> int \<Rightarrow> shift list \<Rightarrow> shift list option" where
  "newCircularShifter_words storage ln wd shifts =
     (case words storage ln of None \<Rightarrow> None
      | Some ws \<Rightarrow>
          if wd \<le> ws then
            newCircularShifter_words storage ln (wd + 1)
              (shifts @ [\<lparr>line = ln, startWord = wd\<rparr>])
          else Some shifts)"
  by pat_completeness auto
termination
  by (relation "measure (\<lambda>(storage, ln, wd, shifts).
        case words storage ln of None \<Rightarrow> 0 | Some ws \<Rightarrow> nat (ws + 1 - wd))")
    auto

declare newCircularShifter_words.simps [simp del]

function newCircularShifter_lines ::
  "lineHolder \<Rightarrow> int \<Rightarrow> shift list \<Rightarrow> shift list option" where
  "newCircularShifter_lines storage ln shifts =
     (if ln \<le> lines storage then
        (case newCircularShifter_words storage ln 1 shifts of None \<Rightarrow> None
         | Some shifts1 \<Rightarrow> newCircularShifter_lines storage (ln + 1) shifts1)
      else Some shifts)"
  by pat_completeness auto
termination
  by (relation "measure (\<lambda>(storage, ln, shifts). nat (lines storage + 1 - ln))") auto

declare newCircularShifter_lines.simps [simp del]

definition newCircularShifter :: "lineHolder \<Rightarrow> lineHolder option" where
  "newCircularShifter storage =
     (case newCircularShifter_lines storage 1 [] of None \<Rightarrow> None
      | Some shifts \<Rightarrow> Some (CircularShifter storage shifts))"

section \<open>Module 4: alphabetizer\<close>

text \<open>
  The loop \<^verbatim>\<open>for i := pivot + 1; i < right; i++\<close> of \<^verbatim>\<open>quickSort\<close>, from the
  values \<open>pivot\<close> and \<open>i\<close> of its two variables; it returns the slice and the pivot
  it ends with. Every read of \<^verbatim>\<open>perm\<close> has Go's index check; in a tuple assignment
  the right-hand sides are read first and the left-hand sides are then written from
  left to right. \<open>None\<close> is a panic (of an index, or inside \<^verbatim>\<open>linesLess\<close>).
\<close>

function partition_loop ::
  "lineHolder \<Rightarrow> int list \<Rightarrow> int \<Rightarrow> int \<Rightarrow> int \<Rightarrow> (int list \<times> int) option" where
  "partition_loop lh perm pivot i right =
     (if i < right then
        (case index perm i of None \<Rightarrow> None
         | Some pi \<Rightarrow>
             (case index perm pivot of None \<Rightarrow> None
              | Some pp \<Rightarrow>
                  (case linesLess lh pi pp of None \<Rightarrow> None
                   | Some False \<Rightarrow> partition_loop lh perm pivot (i + 1) right
                   | Some True \<Rightarrow>
                       if i = pivot + 1 then
                         partition_loop lh (perm[nat pivot := pi, nat i := pp])
                           (pivot + 1) (i + 1) right
                       else
                         (case index perm (pivot + 1) of None \<Rightarrow> None
                          | Some pn \<Rightarrow>
                              partition_loop lh
                                (perm[nat pivot := pi, nat (pivot + 1) := pp, nat i := pn])
                                (pivot + 1) (i + 1) right))))
      else Some (perm, pivot))"
  by pat_completeness auto
termination
  by (relation "measure (\<lambda>(lh, perm, pivot, i, right). nat (right - i))") auto

declare partition_loop.simps [simp del]

text \<open>
  The closure \<^verbatim>\<open>quickSort(left, right)\<close>, with the slice \<^verbatim>\<open>perm\<close> it captures passed
  in and returned.
\<close>

function quickSort :: "lineHolder \<Rightarrow> int list \<Rightarrow> int \<Rightarrow> int \<Rightarrow> int list option" where
  "quickSort lh perm left right =
     (if right - left \<le> 1 then Some perm
      else
        (case partition_loop lh perm left (left + 1) right of None \<Rightarrow> None
         | Some (perm1, pivot) \<Rightarrow>
             (case quickSort lh perm1 left pivot of None \<Rightarrow> None
              | Some perm2 \<Rightarrow> quickSort lh perm2 (pivot + 1) right)))"
  by pat_completeness auto
termination
proof -
  have bounds: "partition_loop lh perm pivot i right = Some (perm', pivot') \<Longrightarrow>
      pivot < i \<Longrightarrow> i \<le> right \<Longrightarrow> pivot \<le> pivot' \<and> pivot' < right"
    for lh perm pivot i right perm' pivot'
  proof (induction lh perm pivot i right rule: partition_loop.induct)
    case (1 lh perm pivot i right)
    show ?case
    proof (cases "i < right")
      case False
      with "1.prems" show ?thesis
        by (simp add: partition_loop.simps [of lh perm pivot i right])
    next
      case True
      with "1.prems" "1.IH" show ?thesis
        by (simp add: partition_loop.simps [of lh perm pivot i right]
              split: option.splits bool.splits if_splits) fastforce+
    qed
  qed
  show ?thesis
    by (relation "measure (\<lambda>(lh, perm, left, right). nat (right - left))")
      (auto dest: bounds)
qed

declare quickSort.simps [simp del]

text \<open>
  \<^verbatim>\<open>newAlphabetizer\<close>: the identity permutation \<^verbatim>\<open>perm[i] = i + 1\<close> on
  \<^verbatim>\<open>lines.lines()\<close> entries, sorted by \<^verbatim>\<open>quickSort(0, len(perm))\<close>.
\<close>

definition newAlphabetizer :: "lineHolder \<Rightarrow> lineHolder option" where
  "newAlphabetizer lh =
     (let perm = map (\<lambda>i. int i + 1) [0..<nat (lines lh)] in
      case quickSort lh perm 0 (int (length perm)) of None \<Rightarrow> None
      | Some perm1 \<Rightarrow> Some (Alphabetizer lh perm1))"

section \<open>Module 5: output\<close>

text \<open>
  The three loops of \<^verbatim>\<open>output\<close>, innermost first. The writer is the list of the
  bytes written so far (the results of \<^verbatim>\<open>w.Write\<close> are dropped by the source);
  \<open>None\<close> is a panic of a read of the \<^verbatim>\<open>lineHolder\<close>. Every loop re-reads its bound
  on every iteration.
\<close>

function output_chars ::
  "lineHolder \<Rightarrow> int \<Rightarrow> int \<Rightarrow> int \<Rightarrow> byte list \<Rightarrow> byte list option" where
  "output_chars lh ln wd ch w =
     (case chars lh ln wd of None \<Rightarrow> None
      | Some cs \<Rightarrow>
          if ch \<le> cs then
            (case char lh ln wd ch of None \<Rightarrow> None
             | Some b \<Rightarrow> output_chars lh ln wd (ch + 1) (w @ [b]))
          else Some w)"
  by pat_completeness auto
termination
  by (relation "measure (\<lambda>(lh, ln, wd, ch, w).
        case chars lh ln wd of None \<Rightarrow> 0 | Some cs \<Rightarrow> nat (cs + 1 - ch))")
    auto

declare output_chars.simps [simp del]

function output_words :: "lineHolder \<Rightarrow> int \<Rightarrow> int \<Rightarrow> byte list \<Rightarrow> byte list option" where
  "output_words lh ln wd w =
     (case words lh ln of None \<Rightarrow> None
      | Some ws \<Rightarrow>
          if wd \<le> ws then
            (case output_chars lh ln wd 1 w of None \<Rightarrow> None
             | Some w1 \<Rightarrow>
                 (case words lh ln of None \<Rightarrow> None
                  | Some ws1 \<Rightarrow>
                      output_words lh ln (wd + 1) (if wd < ws1 then w1 @ [32] else w1)))
          else Some w)"
  by pat_completeness auto
termination
  by (relation "measure (\<lambda>(lh, ln, wd, w).
        case words lh ln of None \<Rightarrow> 0 | Some ws \<Rightarrow> nat (ws + 1 - wd))")
    auto

declare output_words.simps [simp del]

function output_lines :: "lineHolder \<Rightarrow> int \<Rightarrow> byte list \<Rightarrow> byte list option" where
  "output_lines lh ln w =
     (if ln \<le> lines lh then
        (case output_words lh ln 1 w of None \<Rightarrow> None
         | Some w1 \<Rightarrow> output_lines lh (ln + 1) (w1 @ [10]))
      else Some w)"
  by pat_completeness auto
termination
  by (relation "measure (\<lambda>(lh, ln, w). nat (lines lh + 1 - ln))") auto

declare output_lines.simps [simp del]

text \<open>\<^verbatim>\<open>output(w, lines)\<close> on an empty writer (\<open>output\<close> is a keyword of Isabelle).\<close>

definition output_text :: "lineHolder \<Rightarrow> byte list option" where
  "output_text lh = output_lines lh 1 []"

section \<open>Well-formed line holders\<close>

text \<open>
  A line holder is \<open>valid\<close> when its four operations agree: \<^verbatim>\<open>words\<close> answers on
  every line from 1 to \<^verbatim>\<open>lines()\<close>, \<^verbatim>\<open>chars\<close> on every word of such a line, and
  \<^verbatim>\<open>char\<close> on every character of such a word, none of them with a panic.
\<close>

definition valid :: "lineHolder \<Rightarrow> bool" where
  "valid lh =
     (\<forall>ln \<in> set [1..lines lh].
        case words lh ln of None \<Rightarrow> False
        | Some ws \<Rightarrow>
            (\<forall>wd \<in> set [1..ws].
               case chars lh ln wd of None \<Rightarrow> False
               | Some cs \<Rightarrow> (\<forall>ch \<in> set [1..cs]. char lh ln wd ch \<noteq> None)))"

text \<open>
  The ranks of the characters of a word, and of the words of a line, of a valid line
  holder: what \<^verbatim>\<open>wordsLess\<close> and \<^verbatim>\<open>linesLess\<close> compare.
\<close>

definition word_ranks :: "lineHolder \<Rightarrow> int \<Rightarrow> int \<Rightarrow> byte list" where
  "word_ranks lh ln wd =
     map (\<lambda>ch. normalizeChar (the (char lh ln wd ch))) [1..the (chars lh ln wd)]"

definition line_ranks :: "lineHolder \<Rightarrow> int \<Rightarrow> byte list list" where
  "line_ranks lh ln = map (word_ranks lh ln) [1..the (words lh ln)]"

section \<open>Documents as text\<close>

text \<open>
  The text of a document: the words of a line joined by one space (32), every line
  ended by one newline (10). A document is well formed when every line has a word,
  every word has a character, and no character is a space or a newline: then its text
  is one in which single spaces separate the words and newlines end the lines.
\<close>

fun join_words :: "byte list list \<Rightarrow> byte list" where
  "join_words [] = []"
| "join_words [w] = w"
| "join_words (w # v # ws) = w @ [32] @ join_words (v # ws)"

definition render :: "byte list list list \<Rightarrow> byte list" where
  "render d = concat (map (\<lambda>l. join_words l @ [10]) d)"

definition wf_word :: "byte list \<Rightarrow> bool" where
  "wf_word w \<longleftrightarrow> w \<noteq> [] \<and> (\<forall>b \<in> set w. b \<noteq> 32 \<and> b \<noteq> 10)"

definition wf_line :: "byte list list \<Rightarrow> bool" where
  "wf_line l \<longleftrightarrow> l \<noteq> [] \<and> (\<forall>w \<in> set l. wf_word w)"

definition wf_doc :: "byte list list list \<Rightarrow> bool" where
  "wf_doc d \<longleftrightarrow> (\<forall>l \<in> set d. wf_line l)"

section \<open>The invariants of the sort\<close>

text \<open>
  The loop invariant that the source states in \<^verbatim>\<open>quickSort\<close>: the lines at the
  positions from \<open>left\<close> up to the pivot are less than the line at the pivot; and, as the
  loop keeps it too, none of the lines at the positions after the pivot and before \<open>i\<close>
  is less than the line at the pivot. Positions are those of the slice, from 0.
\<close>

definition partitioned :: "lineHolder \<Rightarrow> int list \<Rightarrow> int \<Rightarrow> int \<Rightarrow> int \<Rightarrow> bool" where
  "partitioned lh perm left pivot i \<longleftrightarrow>
     (\<forall>k. left \<le> int k \<and> int k < pivot \<longrightarrow>
        linesLess lh (perm ! k) (perm ! nat pivot) = Some True) \<and>
     (\<forall>k. pivot < int k \<and> int k < i \<longrightarrow>
        linesLess lh (perm ! k) (perm ! nat pivot) = Some False)"

text \<open>
  What a call \<^verbatim>\<open>quickSort(l, r)\<close> may do to the slice: \<open>ys\<close> is \<open>xs\<close> with the
  positions from \<open>l\<close> up to, not including, \<open>r\<close> rearranged among themselves.
\<close>

definition permuted_within :: "int \<Rightarrow> int \<Rightarrow> int list \<Rightarrow> int list \<Rightarrow> bool" where
  "permuted_within l r xs ys \<longleftrightarrow>
     length ys = length xs \<and> mset ys = mset xs \<and>
     (\<forall>k < length xs. int k < l \<or> r \<le> int k \<longrightarrow> ys ! k = xs ! k) \<and>
     (\<forall>k. l \<le> int k \<and> int k < r \<longrightarrow> (\<exists>j. l \<le> int j \<and> int j < r \<and> ys ! k = xs ! j))"

section \<open>Properties of the character rank\<close>

lemma normalizeChar_unat:
  "unat (normalizeChar c) =
     (if 65 \<le> unat c \<and> unat c \<le> 90 then (unat c - 65) * 2
      else if 97 \<le> unat c \<and> unat c \<le> 122 then (unat c - 97) * 2 + 1
      else 0)"
proof -
  have u: "unat c < 256"
    using unsigned_less [of c, where ?'a = nat] by simp
  show ?thesis
    using u
    by (auto simp: normalizeChar_def word_le_nat_alt unat_sub unat_word_ariths)
qed

lemma upper_succ:
  "c \<le> (90::byte) \<Longrightarrow> unat (c + 32) = unat c + 32 \<and> unat (c + 1) = unat c + 1"
  by (auto simp: word_le_nat_alt unat_word_ariths)

text \<open>
  Claim C6. The rank of an upper-case letter is below the rank of the same letter in
  lower case (the byte 32 further on), which is below the rank of the next upper-case
  letter: \<open>rank 'A' < rank 'a' < rank 'B' < rank 'b' < ...\<close>. Every byte that is not a
  letter has the rank 0, the lowest value of a byte; so have the space (32) and the
  digit 5 (53).
\<close>

theorem normalizeChar_order:
  "(65 \<le> c \<and> c \<le> 90 \<longrightarrow>
        normalizeChar c < normalizeChar (c + 32) \<and>
        (c < 90 \<longrightarrow> normalizeChar (c + 32) < normalizeChar (c + 1))) \<and>
   (\<not> (65 \<le> d \<and> d \<le> 90) \<and> \<not> (97 \<le> d \<and> d \<le> 122) \<longrightarrow> normalizeChar d = 0) \<and>
   normalizeChar 65 < normalizeChar 97 \<and> normalizeChar 97 < normalizeChar 66 \<and>
   normalizeChar 66 < normalizeChar 98 \<and> normalizeChar 32 = 0 \<and> normalizeChar 53 = 0"
proof (intro conjI impI)
  assume c: "65 \<le> c \<and> c \<le> 90"
  then have s: "unat (c + 32) = unat c + 32" "unat (c + 1) = unat c + 1"
    using upper_succ by auto
  from c have r: "65 \<le> unat c" "unat c \<le> 90"
    by (auto simp: word_le_nat_alt)
  show "normalizeChar c < normalizeChar (c + 32)"
    using r s by (simp add: word_less_nat_alt normalizeChar_unat)
  assume "c < 90"
  then have "unat c < 90"
    by (simp add: word_less_nat_alt)
  then show "normalizeChar (c + 32) < normalizeChar (c + 1)"
    using r s by (simp add: word_less_nat_alt normalizeChar_unat)
qed (auto simp add: normalizeChar_def)

theorem normalizeChar_order_witness:
  "normalizeChar 66 < normalizeChar 98 \<and> normalizeChar 98 < normalizeChar 67 \<and>
   normalizeChar 33 = 0"
  using normalizeChar_order [of 66 33] by simp

section \<open>Properties of the comparator\<close>

lemma wordsLess_loop_ranks:
  "\<forall>c \<in> set [ch..chars1]. char lh line1 word1 c \<noteq> None \<Longrightarrow>
   \<forall>c \<in> set [ch..chars2]. char lh line2 word2 c \<noteq> None \<Longrightarrow>
   wordsLess_loop lh line1 word1 line2 word2 chars1 chars2 ch =
     Some (map (\<lambda>c. normalizeChar (the (char lh line1 word1 c))) [ch..chars1] <
           map (\<lambda>c. normalizeChar (the (char lh line2 word2 c))) [ch..chars2])"
proof (induction lh line1 word1 line2 word2 chars1 chars2 ch rule: wordsLess_loop.induct)
  case (1 lh line1 word1 line2 word2 chars1 chars2 ch)
  show ?case
  proof (cases "ch > chars2")
    case True
    then show ?thesis
      by (simp add: wordsLess_loop.simps [of lh line1 word1 line2 word2 chars1 chars2 ch])
  next
    case c2: False
    then have u2: "[ch..chars2] = ch # [ch + 1..chars2]"
      by (simp add: upto_rec1)
    show ?thesis
    proof (cases "ch > chars1")
      case True
      with c2 u2 show ?thesis
        by (simp add: wordsLess_loop.simps [of lh line1 word1 line2 word2 chars1 chars2 ch])
    next
      case c1: False
      then have u1: "[ch..chars1] = ch # [ch + 1..chars1]"
        by (simp add: upto_rec1)
      have "ch \<in> set [ch..chars1]" "ch \<in> set [ch..chars2]"
        using c1 c2 by simp_all
      with "1.prems" have "char lh line1 word1 ch \<noteq> None" "char lh line2 word2 ch \<noteq> None"
        by blast+
      then obtain b1 b2 where
        b: "char lh line1 word1 ch = Some b1" "char lh line2 word2 ch = Some b2"
        by auto
      have r1: "\<forall>c \<in> set [ch + 1..chars1]. char lh line1 word1 c \<noteq> None"
        using "1.prems"(1) by simp
      have r2: "\<forall>c \<in> set [ch + 1..chars2]. char lh line2 word2 c \<noteq> None"
        using "1.prems"(2) by simp
      show ?thesis
      proof (cases "normalizeChar b1 = normalizeChar b2")
        case True
        have "\<not> (ch > chars1 \<and> ch \<le> chars2)" using c1 by simp
        from "1.IH" [OF this c2 b(1) b(2) refl refl _ _ r1 r2] True
        show ?thesis
          using c1 c2 b
          by (simp add: wordsLess_loop.simps [of lh line1 word1 line2 word2 chars1 chars2 ch]
                u1 u2 Let_def)
      next
        case False
        then show ?thesis
          using c1 c2 b
          by (auto simp add: wordsLess_loop.simps [of lh line1 word1 line2 word2 chars1 chars2 ch]
                u1 u2 Let_def)
      qed
    qed
  qed
qed

lemma wordsLess_ranks:
  assumes "chars lh line1 word1 = Some chars1" "chars lh line2 word2 = Some chars2"
    and "\<forall>c \<in> set [1..chars1]. char lh line1 word1 c \<noteq> None"
    and "\<forall>c \<in> set [1..chars2]. char lh line2 word2 c \<noteq> None"
  shows "wordsLess lh line1 word1 line2 word2 =
           Some (word_ranks lh line1 word1 < word_ranks lh line2 word2)"
  using assms wordsLess_loop_ranks [OF assms(3) assms(4)]
  by (simp add: wordsLess_def word_ranks_def)

lemma linesLess_loop_ranks:
  "\<forall>w \<in> set [wd..words1]. \<exists>cs. chars lh line1 w = Some cs \<and>
       (\<forall>c \<in> set [1..cs]. char lh line1 w c \<noteq> None) \<Longrightarrow>
   \<forall>w \<in> set [wd..words2]. \<exists>cs. chars lh line2 w = Some cs \<and>
       (\<forall>c \<in> set [1..cs]. char lh line2 w c \<noteq> None) \<Longrightarrow>
   linesLess_loop lh line1 line2 words1 words2 wd =
     Some (map (word_ranks lh line1) [wd..words1] < map (word_ranks lh line2) [wd..words2])"
proof (induction lh line1 line2 words1 words2 wd rule: linesLess_loop.induct)
  case (1 lh line1 line2 words1 words2 wd)
  show ?case
  proof (cases "wd > words2")
    case True
    then show ?thesis
      by (simp add: linesLess_loop.simps [of lh line1 line2 words1 words2 wd])
  next
    case c2: False
    then have u2: "[wd..words2] = wd # [wd + 1..words2]"
      by (simp add: upto_rec1)
    show ?thesis
    proof (cases "wd > words1")
      case True
      with c2 u2 show ?thesis
        by (simp add: linesLess_loop.simps [of lh line1 line2 words1 words2 wd])
    next
      case c1: False
      then have u1: "[wd..words1] = wd # [wd + 1..words1]"
        by (simp add: upto_rec1)
      have "wd \<in> set [wd..words1]" "wd \<in> set [wd..words2]"
        using c1 c2 by simp_all
      with "1.prems" obtain cs1 cs2 where
        cs: "chars lh line1 wd = Some cs1" "\<forall>c \<in> set [1..cs1]. char lh line1 wd c \<noteq> None"
            "chars lh line2 wd = Some cs2" "\<forall>c \<in> set [1..cs2]. char lh line2 wd c \<noteq> None"
        by blast
      have w12: "wordsLess lh line1 wd line2 wd =
          Some (word_ranks lh line1 wd < word_ranks lh line2 wd)"
        using wordsLess_ranks [OF cs(1) cs(3) cs(2) cs(4)] .
      have w21: "wordsLess lh line2 wd line1 wd =
          Some (word_ranks lh line2 wd < word_ranks lh line1 wd)"
        using wordsLess_ranks [OF cs(3) cs(1) cs(4) cs(2)] .
      have r1: "\<forall>w \<in> set [wd + 1..words1]. \<exists>cs. chars lh line1 w = Some cs \<and>
          (\<forall>c \<in> set [1..cs]. char lh line1 w c \<noteq> None)"
        using "1.prems"(1) by simp
      have r2: "\<forall>w \<in> set [wd + 1..words2]. \<exists>cs. chars lh line2 w = Some cs \<and>
          (\<forall>c \<in> set [1..cs]. char lh line2 w c \<noteq> None)"
        using "1.prems"(2) by simp
      show ?thesis
      proof (cases "word_ranks lh line1 wd = word_ranks lh line2 wd")
        case True
        have n: "\<not> (wd > words1 \<and> wd \<le> words2)" using c1 by simp
        have a: "wordsLess lh line1 wd line2 wd = Some False" using w12 True by simp
        have b: "wordsLess lh line2 wd line1 wd = Some False" using w21 True by simp
        from "1.IH" [OF n c2 a _ b _ r1 r2] True
        show ?thesis
          using c1 c2 a b
          by (simp add: linesLess_loop.simps [of lh line1 line2 words1 words2 wd] u1 u2)
      next
        case ne: False
        show ?thesis
        proof (cases "word_ranks lh line1 wd < word_ranks lh line2 wd")
          case True
          then have "wordsLess lh line1 wd line2 wd = Some True"
            using w12 by simp
          with True c1 c2 show ?thesis
            by (simp add: linesLess_loop.simps [of lh line1 line2 words1 words2 wd] u1 u2)
        next
          case False
          with ne have g: "word_ranks lh line2 wd < word_ranks lh line1 wd"
            by auto
          have "wordsLess lh line1 wd line2 wd = Some False"
            using w12 False by simp
          moreover have "wordsLess lh line2 wd line1 wd = Some True"
            using w21 g by simp
          ultimately show ?thesis
            using False ne c1 c2
            by (simp add: linesLess_loop.simps [of lh line1 line2 words1 words2 wd] u1 u2)
        qed
      qed
    qed
  qed
qed

lemma valid_line:
  "valid lh \<Longrightarrow> a \<in> set [1..lines lh] \<Longrightarrow>
   \<exists>ws. words lh a = Some ws \<and>
     (\<forall>w \<in> set [1..ws]. \<exists>cs. chars lh a w = Some cs \<and>
        (\<forall>c \<in> set [1..cs]. char lh a w c \<noteq> None))"
  unfolding valid_def
  by (fastforce split: option.splits)

lemma linesLess_ranks:
  assumes "valid lh" "a \<in> set [1..lines lh]" "b \<in> set [1..lines lh]"
  shows "linesLess lh a b = Some (line_ranks lh a < line_ranks lh b)"
proof -
  from valid_line [OF assms(1) assms(2)] obtain wa where
    a: "words lh a = Some wa"
       "\<forall>w \<in> set [1..wa]. \<exists>cs. chars lh a w = Some cs \<and>
          (\<forall>c \<in> set [1..cs]. char lh a w c \<noteq> None)"
    by blast
  from valid_line [OF assms(1) assms(3)] obtain wb where
    b: "words lh b = Some wb"
       "\<forall>w \<in> set [1..wb]. \<exists>cs. chars lh b w = Some cs \<and>
          (\<forall>c \<in> set [1..cs]. char lh b w c \<noteq> None)"
    by blast
  show ?thesis
    using linesLess_loop_ranks [OF a(2) b(2)] a(1) b(1)
    by (simp add: linesLess_def line_ranks_def)
qed

text \<open>
  Claim C5. On a valid line holder and its lines \<open>a\<close>, \<open>b\<close>, \<open>c\<close> (from 1 to
  \<^verbatim>\<open>lines()\<close>), \<^verbatim>\<open>linesLess\<close> returns, and it is the strict lexicographic order of
  the lines read as lists of words, the words read as lists of ranks. So it is
  irreflexive, transitive and asymmetric; two lines with the same ranks are less than
  each other in neither direction.
\<close>

theorem linesLess_strict_order:
  assumes "valid lh" "a \<in> set [1..lines lh]" "b \<in> set [1..lines lh]" "c \<in> set [1..lines lh]"
  shows "linesLess lh a b = Some (line_ranks lh a < line_ranks lh b) \<and>
         linesLess lh a a = Some False \<and>
         (linesLess lh a b = Some True \<and> linesLess lh b c = Some True \<longrightarrow>
            linesLess lh a c = Some True) \<and>
         (linesLess lh a b = Some True \<longrightarrow> linesLess lh b a = Some False)"
  using linesLess_ranks [OF assms(1) assms(2) assms(3)]
    linesLess_ranks [OF assms(1) assms(2) assms(2)]
    linesLess_ranks [OF assms(1) assms(3) assms(4)]
    linesLess_ranks [OF assms(1) assms(2) assms(4)]
    linesLess_ranks [OF assms(1) assms(3) assms(2)]
  by auto

theorem linesLess_strict_order_witness:
  "linesLess (LineStorage [[[97], [98]], [[97], [99]], [[98]]]) 1 1 = Some False \<and>
   linesLess (LineStorage [[[97], [98]], [[97], [99]], [[98]]]) 1 2 = Some True \<and>
   linesLess (LineStorage [[[97], [98]], [[97], [99]], [[98]]]) 2 3 = Some True \<and>
   linesLess (LineStorage [[[97], [98]], [[97], [99]], [[98]]]) 1 3 = Some True \<and>
   linesLess (LineStorage [[[97], [98]], [[97], [99]], [[98]]]) 2 1 = Some False"
proof -
  have v: "valid (LineStorage [[[97], [98]], [[97], [99]], [[98]]])"
    by (simp add: valid_def upto_rec1 index_def)
  have m: "(1::int) \<in> set [1..lines (LineStorage [[[97], [98]], [[97], [99]], [[98]]])]"
    "(2::int) \<in> set [1..lines (LineStorage [[[97], [98]], [[97], [99]], [[98]]])]"
    "(3::int) \<in> set [1..lines (LineStorage [[[97], [98]], [[97], [99]], [[98]]])]"
    by simp_all
  have e: "linesLess (LineStorage [[[97], [98]], [[97], [99]], [[98]]]) 2 3 = Some True"
    by code_simp
  show ?thesis
    using linesLess_strict_order [OF v m(1) m(2) m(3)] e
    by (simp add: line_ranks_def word_ranks_def upto_rec1 index_def normalizeChar_def)
qed

lemma map_upto_index:
  "map (\<lambda>i. f (the (index xs (i - 1)))) [1..int (length xs)] = map f xs"
proof (induction xs rule: rev_induct)
  case Nil
  then show ?case by simp
next
  case (snoc x xs)
  let ?g = "\<lambda>i. f (the (index (xs @ [x]) (i - 1)))"
  have "[1..int (length xs) + 1] = [1..int (length xs)] @ [int (length xs) + 1]"
    using upto_rec2 [of 1 "int (length xs) + 1"] by simp
  moreover have "int (length (xs @ [x])) = int (length xs) + 1"
    by simp
  ultimately have u: "[1..int (length (xs @ [x]))] = [1..int (length xs)] @ [int (length xs) + 1]"
    by (simp only:)
  have "map ?g [1..int (length xs)] = map (\<lambda>i. f (the (index xs (i - 1)))) [1..int (length xs)]"
    by (rule map_cong) (auto simp: index_def nth_append)
  with snoc have a: "map ?g [1..int (length xs)] = map f xs"
    by simp
  have b: "?g (int (length xs) + 1) = f x"
    by (simp add: index_def)
  have "map ?g [1..int (length (xs @ [x]))] = map ?g [1..int (length xs)] @ [?g (int (length xs) + 1)]"
    by (simp only: u map_append list.map)
  with a b show ?case
    by simp
qed

lemma word_ranks_LineStorage:
  "index array (ln - 1) = Some l \<Longrightarrow> index l (wd - 1) = Some w \<Longrightarrow>
   word_ranks (LineStorage array) ln wd = map normalizeChar w"
  using map_upto_index [of normalizeChar w]
  by (simp add: word_ranks_def)

lemma wordsLess_LineStorage:
  assumes "index array (line1 - 1) = Some l1" "index l1 (word1 - 1) = Some w1"
    and "index array (line2 - 1) = Some l2" "index l2 (word2 - 1) = Some w2"
  shows "wordsLess (LineStorage array) line1 word1 line2 word2 =
           Some (map normalizeChar w1 < map normalizeChar w2)"
proof -
  have c1: "chars (LineStorage array) line1 word1 = Some (int (length w1))"
    and c2: "chars (LineStorage array) line2 word2 = Some (int (length w2))"
    using assms by simp_all
  have e1: "\<forall>c \<in> set [1..int (length w1)]. char (LineStorage array) line1 word1 c \<noteq> None"
    and e2: "\<forall>c \<in> set [1..int (length w2)]. char (LineStorage array) line2 word2 c \<noteq> None"
    using assms by (simp_all add: index_def)
  show ?thesis
    using wordsLess_ranks [OF c1 c2 e1 e2]
      word_ranks_LineStorage [OF assms(1,2)] word_ranks_LineStorage [OF assms(3,4)]
    by simp
qed

text \<open>
  Claim C10. The rank of \<^verbatim>\<open>'A'\<close> (65) is 0, the rank of the space (32), of the digit
  5 (53) and of every byte \<open>c\<close> that is not a letter. So \<^verbatim>\<open>'A'\<close> and such a byte compare
  equal in \<^verbatim>\<open>wordsLess\<close>: the words \<^verbatim>\<open>A\<close> and \<open>c\<close> are less than each other in neither
  direction; nor are two words that differ only in having \<^verbatim>\<open>'A'\<close> and \<open>c\<close> at the same
  position, whatever stands before (\<open>u\<close>) and after (\<open>v\<close>); and at every position \<open>ch\<close>
  of any two words of any line holder, \<^verbatim>\<open>'A'\<close> in one word and \<open>c\<close> in the other decide
  neither direction of the comparison, which goes on to the position \<open>ch + 1\<close>.
\<close>

theorem normalizeChar_A_is_zero:
  "normalizeChar 65 = 0 \<and> normalizeChar 32 = 0 \<and> normalizeChar 53 = 0 \<and>
   (\<not> (65 \<le> c \<and> c \<le> 90) \<and> \<not> (97 \<le> c \<and> c \<le> 122) \<longrightarrow>
      normalizeChar c = normalizeChar 65 \<and>
      wordsLess (LineStorage [[[65], [c]]]) 1 1 1 2 = Some False \<and>
      wordsLess (LineStorage [[[65], [c]]]) 1 2 1 1 = Some False \<and>
      wordsLess (LineStorage [[u @ 65 # v, u @ c # v]]) 1 1 1 2 = Some False \<and>
      wordsLess (LineStorage [[u @ 65 # v, u @ c # v]]) 1 2 1 1 = Some False \<and>
      (ch \<le> chars1 \<and> ch \<le> chars2 \<and>
       char lh line1 word1 ch = Some 65 \<and> char lh line2 word2 ch = Some c \<longrightarrow>
         wordsLess_loop lh line1 word1 line2 word2 chars1 chars2 ch =
           wordsLess_loop lh line1 word1 line2 word2 chars1 chars2 (ch + 1) \<and>
         wordsLess_loop lh line2 word2 line1 word1 chars2 chars1 ch =
           wordsLess_loop lh line2 word2 line1 word1 chars2 chars1 (ch + 1)))"
proof -
  have A: "normalizeChar 65 = 0"
    by (simp add: normalizeChar_def)
  have n: "normalizeChar c = 0" if "\<not> (65 \<le> c \<and> c \<le> 90) \<and> \<not> (97 \<le> c \<and> c \<le> 122)"
    using that by (auto simp: normalizeChar_def)
  have w: "wordsLess (LineStorage [[x, y]]) 1 1 1 2 = Some (map normalizeChar x < map normalizeChar y)"
    "wordsLess (LineStorage [[x, y]]) 1 2 1 1 = Some (map normalizeChar y < map normalizeChar x)"
    for x y
    using wordsLess_LineStorage [of "[[x, y]]" 1 "[x, y]" 1 x 1 "[x, y]" 2 y]
      wordsLess_LineStorage [of "[[x, y]]" 1 "[x, y]" 2 y 1 "[x, y]" 1 x]
    by (simp_all add: index_def)
  have step: "wordsLess_loop lh line1 word1 line2 word2 chars1 chars2 ch =
           wordsLess_loop lh line1 word1 line2 word2 chars1 chars2 (ch + 1) \<and>
         wordsLess_loop lh line2 word2 line1 word1 chars2 chars1 ch =
           wordsLess_loop lh line2 word2 line1 word1 chars2 chars1 (ch + 1)"
    if "normalizeChar c = 0" "ch \<le> chars1" "ch \<le> chars2"
      "char lh line1 word1 ch = Some 65" "char lh line2 word2 ch = Some c"
    using that A
    by (simp add: wordsLess_loop.simps [of lh line1 word1 line2 word2 chars1 chars2 ch]
          wordsLess_loop.simps [of lh line2 word2 line1 word1 chars2 chars1 ch])
  show ?thesis
    using A n step by (simp add: w) (simp add: normalizeChar_def)
qed

theorem normalizeChar_A_is_zero_witness:
  "normalizeChar 46 = normalizeChar 65 \<and>
   wordsLess (LineStorage [[[65], [46]]]) 1 1 1 2 = Some False \<and>
   wordsLess (LineStorage [[[65], [46]]]) 1 2 1 1 = Some False \<and>
   wordsLess (LineStorage [[[120, 65, 98], [120, 46, 98]]]) 1 1 1 2 = Some False \<and>
   wordsLess (LineStorage [[[120, 65, 98], [120, 46, 98]]]) 1 2 1 1 = Some False \<and>
   wordsLess_loop (LineStorage [[[120, 65, 98], [120, 46, 97]]]) 1 1 1 2 3 3 2 =
     wordsLess_loop (LineStorage [[[120, 65, 98], [120, 46, 97]]]) 1 1 1 2 3 3 3 \<and>
   wordsLess_loop (LineStorage [[[120, 65, 98], [120, 46, 97]]]) 1 2 1 1 3 3 2 =
     wordsLess_loop (LineStorage [[[120, 65, 98], [120, 46, 97]]]) 1 2 1 1 3 3 3"
  using normalizeChar_A_is_zero [of 46 "[120]" "[98]" 2 3 3 "LineStorage [[[120, 65, 98], [120, 46, 97]]]" 1 1 1 2]
  by (simp add: index_def)

section \<open>Properties of the line storage\<close>

lemma setWord_next_char:
  "setWord (pre @ [wsl @ [w0]]) (int (length pre) + 1) (int (length wsl) + 1)
     (int (length w0) + 1) v = (None, pre @ [wsl @ [w0 @ [v]]])"
  by (simp add: setWord_def index_def nth_append)

lemma setWord_new_word:
  "setWord (pre @ [wsl]) (int (length pre) + 1) (int (length wsl) + 1) 1 v =
     (None, pre @ [wsl @ [[v]]])"
  by (simp add: setWord_def index_def nth_append)

lemma setWord_new_line:
  "setWord pre (int (length pre) + 1) 1 1 v = (None, pre @ [[[v]]])"
  by (simp add: setWord_def index_def nth_append)

lemma setWord_success:
  assumes "setWord array ln wd ch v = (None, array1)"
  shows "ln = int (length array1) \<and> array1 \<noteq> [] \<and> wd = int (length (last array1)) \<and> 1 \<le> wd"
proof -
  let ?lns = "int (length array)"
  from assms have l: "ln = ?lns \<or> ln = ?lns + 1"
    by (auto simp: setWord_def Let_def split: if_splits)
  then show ?thesis
  proof
    assume e: "ln = ?lns"
    show ?thesis
    proof (cases array rule: rev_cases)
      case Nil
      with assms e show ?thesis
        by (simp add: setWord_def Let_def index_def)
    next
      case (snoc xs x)
      from assms e snoc have w: "wd = int (length x) \<or> wd = int (length x) + 1"
        by (auto simp: setWord_def Let_def index_def split: if_splits)
      then show ?thesis
      proof
        assume wd: "wd = int (length x)"
        show ?thesis
        proof (cases x rule: rev_cases)
          case Nil
          with assms e snoc wd show ?thesis
            by (simp add: setWord_def Let_def index_def)
        next
          case (snoc ys y)
          with assms e \<open>array = xs @ [x]\<close> wd show ?thesis
            by (auto simp add: setWord_def Let_def index_def nth_append split: if_splits)
        qed
      next
        assume wd: "wd = int (length x) + 1"
        with assms e snoc show ?thesis
          by (auto simp add: setWord_def Let_def index_def nth_append split: if_splits)
      qed
    qed
  next
    assume e: "ln = ?lns + 1"
    from assms e have w: "wd = 0 \<or> wd = 1"
      by (auto simp: setWord_def Let_def split: if_splits)
    then show ?thesis
    proof
      assume "wd = 0"
      with assms e show ?thesis
        by (auto simp add: setWord_def Let_def index_def nth_append split: if_splits)
    next
      assume "wd = 1"
      with assms e show ?thesis
        by (auto simp add: setWord_def Let_def index_def nth_append split: if_splits)
    qed
  qed
qed

text \<open>
  Claim C8. \<^verbatim>\<open>setWord\<close> is to fail with one of its three out-of-sequence panics, and
  leave the storage as it was, on every triple that is not the next position. It does
  not on the word 0 of a new line: on every storage the call
  \<^verbatim>\<open>setWord(lines + 1, 0, 1, v)\<close> passes the three checks (\<^verbatim>\<open>word < words\<close> is
  \<open>0 < 0\<close>), appends the empty line, and only then fails, with Go's index panic at
  \<^verbatim>\<open>storage.array[line-1][-1]\<close>; the storage is left with one line more. On the empty
  storage the call is \<^verbatim>\<open>setWord(1, 0, 1, 'x')\<close>.
\<close>

theorem setWord_word_zero:
  "setWord array (int (length array) + 1) 0 1 v = (Some IndexOutOfRange, array @ [[]]) \<and>
   setWord [] 1 0 1 120 = (Some IndexOutOfRange, [[]])"
  by (simp add: setWord_def Let_def index_def nth_append)

section \<open>Properties of the circular shifter\<close>

lemma words_nonneg: "words lh ln = Some ws \<Longrightarrow> 0 \<le> ws"
  by (induction lh arbitrary: ln) (auto split: option.splits)

lemma newCircularShifter_words_eq:
  "words storage ln = Some ws \<Longrightarrow>
   newCircularShifter_words storage ln wd shifts =
     Some (shifts @ map (\<lambda>w. \<lparr>line = ln, startWord = w\<rparr>) [wd..ws])"
proof (induction storage ln wd shifts rule: newCircularShifter_words.induct)
  case (1 storage ln wd shifts)
  show ?case
  proof (cases "wd \<le> ws")
    case True
    then have "[wd..ws] = wd # [wd + 1..ws]"
      by (simp add: upto_rec1)
    with True "1.prems" "1.IH" [OF "1.prems" True "1.prems"] show ?thesis
      by (simp add: newCircularShifter_words.simps [of storage ln wd shifts])
  next
    case False
    with "1.prems" show ?thesis
      by (simp add: newCircularShifter_words.simps [of storage ln wd shifts])
  qed
qed

lemma newCircularShifter_lines_eq:
  "\<forall>l \<in> set [ln..lines storage]. words storage l = Some (wc l) \<Longrightarrow>
   newCircularShifter_lines storage ln shifts =
     Some (shifts @
       concat (map (\<lambda>l. map (\<lambda>w. \<lparr>line = l, startWord = w\<rparr>) [1..wc l]) [ln..lines storage]))"
proof (induction storage ln shifts rule: newCircularShifter_lines.induct)
  case (1 storage ln shifts)
  show ?case
  proof (cases "ln \<le> lines storage")
    case True
    then have u: "[ln..lines storage] = ln # [ln + 1..lines storage]"
      by (simp add: upto_rec1)
    from True "1.prems" have w: "words storage ln = Some (wc ln)"
      by simp
    have r: "\<forall>l \<in> set [ln + 1..lines storage]. words storage l = Some (wc l)"
      using "1.prems" by simp
    show ?thesis
      using True "1.IH" [OF True newCircularShifter_words_eq [OF w] r]
      by (simp add: newCircularShifter_lines.simps [of storage ln shifts]
            newCircularShifter_words_eq [OF w] u)
  next
    case False
    then show ?thesis
      by (simp add: newCircularShifter_lines.simps [of storage ln shifts])
  qed
qed

lemma length_concat_shifts:
  "\<forall>l \<in> set ls. 0 \<le> wc l \<Longrightarrow>
   int (length (concat (map (\<lambda>l. map (\<lambda>w. \<lparr>line = l, startWord = w\<rparr>) [1..wc l]) ls))) =
     sum_list (map wc ls)"
  by (induction ls) auto

lemma newCircularShifter_eq:
  assumes "\<forall>l \<in> set [1..lines storage]. words storage l = Some (wc l)"
  shows "newCircularShifter storage = Some (CircularShifter storage
           (concat (map (\<lambda>l. map (\<lambda>w. \<lparr>line = l, startWord = w\<rparr>) [1..wc l]) [1..lines storage])))"
  using newCircularShifter_lines_eq [OF assms, of "[]"]
  by (simp add: newCircularShifter_def)

text \<open>
  Claim C9. Over a line holder whose \<^verbatim>\<open>words\<close> answers \<open>wc l\<close> on every line \<open>l\<close> from
  1 to \<^verbatim>\<open>lines()\<close>, \<^verbatim>\<open>newCircularShifter\<close> returns, and its shifts are one per word, in
  the order of the document: the words 1 to \<open>wc 1\<close> of line 1, then those of line 2,
  and so on. The number of lines of the shifter is then the sum of the numbers of words
  of the lines. A line storage is such a line holder, whatever its array: the number
  of lines of the shifter over it is the sum of the lengths of the lines of the array.
\<close>

theorem shifter_lines_total_words:
  "((\<forall>l \<in> set [1..lines storage]. words storage l = Some (wc l)) \<longrightarrow>
      (\<exists>shifts. newCircularShifter storage = Some (CircularShifter storage shifts) \<and>
         shifts = concat (map (\<lambda>l. map (\<lambda>w. \<lparr>line = l, startWord = w\<rparr>) [1..wc l])
                            [1..lines storage]) \<and>
         lines (CircularShifter storage shifts) = sum_list (map wc [1..lines storage]))) \<and>
   (\<exists>shifts. newCircularShifter (LineStorage array) =
         Some (CircularShifter (LineStorage array) shifts) \<and>
      lines (CircularShifter (LineStorage array) shifts) =
        sum_list (map (\<lambda>l. int (length l)) array))"
proof -
  have g: "\<exists>shifts. newCircularShifter storage = Some (CircularShifter storage shifts) \<and>
         shifts = concat (map (\<lambda>l. map (\<lambda>w. \<lparr>line = l, startWord = w\<rparr>) [1..wc l])
                            [1..lines storage]) \<and>
         lines (CircularShifter storage shifts) = sum_list (map wc [1..lines storage])"
    if h: "\<forall>l \<in> set [1..lines storage]. words storage l = Some (wc l)"
    for storage :: lineHolder and wc
  proof -
    have nn: "\<forall>l \<in> set [1..lines storage]. 0 \<le> wc l"
      using h words_nonneg by blast
    show ?thesis
      using newCircularShifter_eq [OF h] length_concat_shifts [OF nn] by simp
  qed
  let ?wc = "\<lambda>l. int (length (the (index array (l - 1))))"
  have h: "\<forall>l \<in> set [1..lines (LineStorage array)]. words (LineStorage array) l = Some (?wc l)"
    by (simp add: index_def)
  have "sum_list (map ?wc [1..lines (LineStorage array)]) = sum_list (map (\<lambda>l. int (length l)) array)"
    using map_upto_index [of "\<lambda>l. int (length l)" array] by simp
  with g [OF h] have "\<exists>shifts. newCircularShifter (LineStorage array) =
         Some (CircularShifter (LineStorage array) shifts) \<and>
      lines (CircularShifter (LineStorage array) shifts) =
        sum_list (map (\<lambda>l. int (length l)) array)"
    by auto
  with g show ?thesis
    by blast
qed

theorem shifter_lines_total_words_witness:
  "\<exists>shifts. newCircularShifter (LineStorage [[[116, 104, 101], [99, 97, 116]], [[97]]]) =
       Some (CircularShifter (LineStorage [[[116, 104, 101], [99, 97, 116]], [[97]]]) shifts) \<and>
     shifts = [\<lparr>line = 1, startWord = 1\<rparr>, \<lparr>line = 1, startWord = 2\<rparr>,
               \<lparr>line = 2, startWord = 1\<rparr>] \<and>
     lines (CircularShifter (LineStorage [[[116, 104, 101], [99, 97, 116]], [[97]]]) shifts) =
       2 + 1"
proof -
  have h: "\<forall>l \<in> set [1..lines (LineStorage [[[116, 104, 101], [99, 97, 116]], [[97]]])].
      words (LineStorage [[[116, 104, 101], [99, 97, 116]], [[97]]]) l =
        Some (if l = 1 then 2 else 1)"
    by (simp add: upto_rec1 index_def)
  show ?thesis
    using shifter_lines_total_words [of "LineStorage [[[116, 104, 101], [99, 97, 116]], [[97]]]"
        "\<lambda>l. if l = 1 then 2 else 1" "[]"] h
    by (simp add: upto_rec1)
qed

text \<open>
  The 64-bit addition of the shifter at work, on a shifter built by hand: the word
  \<open>- 2 ^ 63 + 1\<close> and the \<^verbatim>\<open>startWord\<close> \<open>- 2 ^ 63\<close> add up to the word 1.
\<close>

lemma circularShifter_wraps: "char (CircularShifter (LineStorage [[[97, 112, 112, 108, 101], [98]]])
     [\<lparr>line = 1, startWord = - (2 ^ 63)\<rparr>]) 1 (- (2 ^ 63) + 1) 1 = Some 97 \<and>
   chars (CircularShifter (LineStorage [[[97, 112, 112, 108, 101], [98]]])
     [\<lparr>line = 1, startWord = - (2 ^ 63)\<rparr>]) 1 (- (2 ^ 63) + 1) = Some 5"
  by (simp add: wrap64_def index_def)

lemma wrap64_id: "- (2 ^ 63) \<le> x \<Longrightarrow> x < 2 ^ 63 \<Longrightarrow> wrap64 x = x"
  by (simp add: wrap64_def)

lemma circularShifter_char_word1:
  assumes "index shifts (ln - 1) = Some sh" "words storage (line sh) = Some ws"
    and "1 \<le> startWord sh" "startWord sh \<le> ws" "ws < 2 ^ 62"
  shows "char (CircularShifter storage shifts) ln 1 ch =
           char storage (line sh) (if startWord sh = ws then 1 else startWord sh + 1) ch"
proof -
  have "wrap64 (1 + startWord sh) = 1 + startWord sh"
    using assms(3-5) by (intro wrap64_id) auto
  with assms show ?thesis
    by (auto simp: add.commute [of 1])
qed

text \<open>
  Claim C1. Word 1 of the line of the shifter with \<^verbatim>\<open>startWord = k\<close> is to be word \<open>k\<close>
  of the source line. It is not: \<^verbatim>\<open>char\<close> and \<^verbatim>\<open>chars\<close> of the shifter read the word
  \<^verbatim>\<open>word + startWord\<close>, one too far. Over the one line \<^verbatim>\<open>the cat sat\<close> the shifter
  has the shifts (1, 1), (1, 2), (1, 3); the first character of word 1 of its line 1
  (\<^verbatim>\<open>startWord = 1\<close>) is \<^verbatim>\<open>'c'\<close> (99), the first character of word 2 of the source,
  and not \<^verbatim>\<open>'t'\<close> (116), the first character of word 1 of the source. The lemma
  before gives the word that is read in general: word \<open>k + 1\<close>, or word 1 when \<open>k\<close>
  is the last word.
\<close>

theorem circularShifter_first_word_is_next:
  "newCircularShifter (LineStorage [[[116, 104, 101], [99, 97, 116], [115, 97, 116]]]) =
     Some (CircularShifter (LineStorage [[[116, 104, 101], [99, 97, 116], [115, 97, 116]]])
        [\<lparr>line = 1, startWord = 1\<rparr>, \<lparr>line = 1, startWord = 2\<rparr>, \<lparr>line = 1, startWord = 3\<rparr>]) \<and>
   char (CircularShifter (LineStorage [[[116, 104, 101], [99, 97, 116], [115, 97, 116]]])
        [\<lparr>line = 1, startWord = 1\<rparr>, \<lparr>line = 1, startWord = 2\<rparr>, \<lparr>line = 1, startWord = 3\<rparr>])
     1 1 1 = Some 99 \<and>
   char (LineStorage [[[116, 104, 101], [99, 97, 116], [115, 97, 116]]]) 1 1 1 = Some 116"
  by code_simp

text \<open>
  Every line storage is valid, and so is the shifter that \<^verbatim>\<open>newCircularShifter\<close> builds
  over it (no line having \<open>2 ^ 62\<close> words or more, which keeps \<^verbatim>\<open>word + startWord\<close>
  within 64 bits).
\<close>

lemma valid_LineStorage: "valid (LineStorage array)"
  by (auto simp: valid_def index_def split: option.splits)

lemma validI:
  assumes "\<And>ln. ln \<in> set [1..lines lh] \<Longrightarrow>
      \<exists>ws. words lh ln = Some ws \<and>
        (\<forall>wd \<in> set [1..ws]. \<exists>cs. chars lh ln wd = Some cs \<and>
           (\<forall>ch \<in> set [1..cs]. char lh ln wd ch \<noteq> None))"
  shows "valid lh"
  unfolding valid_def
proof
  fix ln
  assume "ln \<in> set [1..lines lh]"
  from assms [OF this] obtain ws where ws: "words lh ln = Some ws"
    and w: "\<forall>wd \<in> set [1..ws]. \<exists>cs. chars lh ln wd = Some cs \<and>
           (\<forall>ch \<in> set [1..cs]. char lh ln wd ch \<noteq> None)"
    by blast
  from w have "\<forall>wd \<in> set [1..ws]. (case chars lh ln wd of None \<Rightarrow> False
      | Some cs \<Rightarrow> (\<forall>ch \<in> set [1..cs]. char lh ln wd ch \<noteq> None))"
    by fastforce
  with ws show "(case words lh ln of None \<Rightarrow> False
      | Some ws \<Rightarrow> (\<forall>wd \<in> set [1..ws]. (case chars lh ln wd of None \<Rightarrow> False
          | Some cs \<Rightarrow> (\<forall>ch \<in> set [1..cs]. char lh ln wd ch \<noteq> None))))"
    by simp
qed

lemma valid_CircularShifter:
  assumes v: "valid storage"
    and s: "\<forall>sh \<in> set shifts. line sh \<in> set [1..lines storage] \<and> 1 \<le> startWord sh \<and>
        (\<forall>ws. words storage (line sh) = Some ws \<longrightarrow> startWord sh \<le> ws \<and> ws < 2 ^ 62)"
  shows "valid (CircularShifter storage shifts)"
proof (rule validI)
  fix ln
  assume "ln \<in> set [1..lines (CircularShifter storage shifts)]"
  then have ln: "1 \<le> ln" "ln \<le> int (length shifts)"
    by simp_all
  define sh where "sh = shifts ! nat (ln - 1)"
  have ix: "index shifts (ln - 1) = Some sh"
    using ln by (simp add: index_def sh_def)
  have "sh \<in> set shifts"
    using ln by (simp add: sh_def)
  with s have l: "line sh \<in> set [1..lines storage]" and k1: "1 \<le> startWord sh"
    and k2: "\<forall>ws. words storage (line sh) = Some ws \<longrightarrow> startWord sh \<le> ws \<and> ws < 2 ^ 62"
    by blast+
  from valid_line [OF v l] obtain ws where
    ws: "words storage (line sh) = Some ws"
    and w: "\<forall>w \<in> set [1..ws]. \<exists>cs. chars storage (line sh) w = Some cs \<and>
          (\<forall>c \<in> set [1..cs]. char storage (line sh) w c \<noteq> None)"
    by blast
  from k2 ws have k: "startWord sh \<le> ws" "ws < 2 ^ 62"
    by simp_all
  have inner: "\<exists>cs. chars (CircularShifter storage shifts) ln wd = Some cs \<and>
      (\<forall>ch \<in> set [1..cs]. char (CircularShifter storage shifts) ln wd ch \<noteq> None)"
    if wd: "wd \<in> set [1..ws]" for wd
  proof -
    have r: "1 \<le> wd" "wd \<le> ws" using wd by simp_all
    have e: "wrap64 (wd + startWord sh) = wd + startWord sh"
      using r k k1 by (intro wrap64_id) auto
    define t where "t = (if wd + startWord sh > ws then wd + startWord sh - ws else wd + startWord sh)"
    have "t \<in> set [1..ws]"
      using r k k1 by (auto simp: t_def)
    with w obtain cs where cs: "chars storage (line sh) t = Some cs"
      "\<forall>c \<in> set [1..cs]. char storage (line sh) t c \<noteq> None"
      by blast
    have c: "chars (CircularShifter storage shifts) ln wd = Some cs"
      using ix ws e cs(1) by (simp add: t_def)
    have "char (CircularShifter storage shifts) ln wd ch = char storage (line sh) t ch" for ch
      using ix ws e by (simp add: t_def)
    with c cs(2) show ?thesis
      by simp
  qed
  have "words (CircularShifter storage shifts) ln = Some ws"
    using ix ws by simp
  with inner show "\<exists>ws. words (CircularShifter storage shifts) ln = Some ws \<and>
      (\<forall>wd \<in> set [1..ws]. \<exists>cs. chars (CircularShifter storage shifts) ln wd = Some cs \<and>
         (\<forall>ch \<in> set [1..cs]. char (CircularShifter storage shifts) ln wd ch \<noteq> None))"
    by blast
qed

lemma valid_newCircularShifter:
  assumes "\<forall>l \<in> set array. int (length l) < 2 ^ 62"
  shows "\<exists>shifter. newCircularShifter (LineStorage array) = Some shifter \<and> valid shifter"
proof -
  let ?wc = "\<lambda>l. int (length (the (index array (l - 1))))"
  let ?shifts = "concat (map (\<lambda>l. map (\<lambda>w. \<lparr>line = l, startWord = w\<rparr>) [1..?wc l])
      [1..lines (LineStorage array)])"
  have h: "\<forall>l \<in> set [1..lines (LineStorage array)]. words (LineStorage array) l = Some (?wc l)"
    by (simp add: index_def)
  have n: "newCircularShifter (LineStorage array) = Some (CircularShifter (LineStorage array) ?shifts)"
    using newCircularShifter_eq [OF h] .
  have "\<forall>sh \<in> set ?shifts. line sh \<in> set [1..lines (LineStorage array)] \<and> 1 \<le> startWord sh \<and>
      (\<forall>ws. words (LineStorage array) (line sh) = Some ws \<longrightarrow> startWord sh \<le> ws \<and> ws < 2 ^ 62)"
    using assms by (auto simp: index_def)
  from valid_CircularShifter [OF valid_LineStorage this] n show ?thesis
    by blast
qed

section \<open>Properties of the alphabetizer\<close>

lemma permuted_within_refl: "permuted_within l r xs xs"
  by (auto simp: permuted_within_def)

lemma permuted_within_trans:
  assumes "permuted_within l r xs ys" "permuted_within l r ys zs"
  shows "permuted_within l r xs zs"
proof -
  have d: "\<exists>j. l \<le> int j \<and> int j < r \<and> zs ! k = xs ! j" if k: "l \<le> int k" "int k < r" for k
  proof -
    from assms(2) k obtain j where j: "l \<le> int j" "int j < r" "zs ! k = ys ! j"
      unfolding permuted_within_def by blast
    from assms(1) j obtain j' where "l \<le> int j'" "int j' < r" "ys ! j = xs ! j'"
      unfolding permuted_within_def by blast
    with j show ?thesis by auto
  qed
  have c: "\<forall>k < length xs. int k < l \<or> r \<le> int k \<longrightarrow> zs ! k = xs ! k"
    using assms unfolding permuted_within_def by auto
  show ?thesis
    using assms c d unfolding permuted_within_def by simp
qed

lemma permuted_within_mono:
  assumes "permuted_within l' r' xs ys" "l \<le> l'" "r' \<le> r" "r \<le> int (length xs)"
  shows "permuted_within l r xs ys"
proof -
  have d: "\<exists>j. l \<le> int j \<and> int j < r \<and> ys ! k = xs ! j" if k: "l \<le> int k" "int k < r" for k
  proof (cases "l' \<le> int k \<and> int k < r'")
    case True
    with assms(1) obtain j where "l' \<le> int j \<and> int j < r' \<and> ys ! k = xs ! j"
      unfolding permuted_within_def by blast
    with assms(2,3) show ?thesis
      by (intro exI [of _ j]) auto
  next
    case False
    from k assms(4) have "k < length xs" by simp
    with False assms(1) have "ys ! k = xs ! k"
      unfolding permuted_within_def by auto
    with k show ?thesis by blast
  qed
  show ?thesis
    using assms d unfolding permuted_within_def by auto
qed

lemma swap_within:
  assumes "0 \<le> l" "l \<le> p" "p < i" "i < r" "r \<le> int (length xs)"
  shows "permuted_within l r xs (xs[nat p := xs ! nat i, nat i := xs ! nat p])"
proof -
  have b: "nat p < length xs" "nat i < length xs" "nat p \<noteq> nat i"
    using assms by auto
  have m: "mset (xs[nat p := xs ! nat i, nat i := xs ! nat p]) = mset xs"
    using b by (simp add: mset_swap)
  have d: "\<exists>j. l \<le> int j \<and> int j < r \<and> (xs[nat p := xs ! nat i, nat i := xs ! nat p]) ! k = xs ! j"
    if k: "l \<le> int k" "int k < r" for k
  proof -
    have kl: "k < length xs" using k assms by simp
    consider "k = nat p" | "k = nat i" | "k \<noteq> nat p \<and> k \<noteq> nat i" by blast
    then show ?thesis
    proof cases
      case 1
      with b assms show ?thesis by (intro exI [of _ "nat i"]) simp
    next
      case 2
      with b assms show ?thesis by (intro exI [of _ "nat p"]) simp
    next
      case 3
      with b k show ?thesis by (intro exI [of _ k]) simp
    qed
  qed
  have c: "\<forall>k < length xs. int k < l \<or> r \<le> int k \<longrightarrow>
      (xs[nat p := xs ! nat i, nat i := xs ! nat p]) ! k = xs ! k"
    using assms by auto
  show ?thesis
    unfolding permuted_within_def using m c d by simp
qed

lemma rotate_within:
  assumes "0 \<le> l" "l \<le> p" "p + 1 < i" "i < r" "r \<le> int (length xs)"
  shows "permuted_within l r xs
           (xs[nat p := xs ! nat i, nat (p + 1) := xs ! nat p, nat i := xs ! nat (p + 1)])"
proof -
  let ?ys = "xs[nat p := xs ! nat i, nat i := xs ! nat p]"
  have e: "xs[nat p := xs ! nat i, nat (p + 1) := xs ! nat p, nat i := xs ! nat (p + 1)] =
      ?ys[nat (p + 1) := ?ys ! nat i, nat i := ?ys ! nat (p + 1)]"
    using assms by (simp add: list_update_swap [of "nat i" "nat (p + 1)"])
  have 1: "permuted_within l r xs ?ys"
    using swap_within [of l p i r xs] assms by simp
  have 2: "permuted_within l r ?ys (?ys[nat (p + 1) := ?ys ! nat i, nat i := ?ys ! nat (p + 1)])"
    using swap_within [of l "p + 1" i r ?ys] assms by simp
  show ?thesis
    unfolding e using permuted_within_trans [OF 1 2] .
qed

lemma permuted_within_set:
  "permuted_within l r xs ys \<Longrightarrow> set ys = set xs"
  unfolding permuted_within_def by (metis mset_eq_setD)

lemma partition_loop_spec:
  "\<forall>x \<in> S. \<forall>y \<in> S. linesLess lh x y \<noteq> None \<Longrightarrow> set perm \<subseteq> S \<Longrightarrow>
   0 \<le> left \<Longrightarrow> left \<le> pivot \<Longrightarrow> pivot < i \<Longrightarrow> i \<le> right \<Longrightarrow> right \<le> int (length perm) \<Longrightarrow>
   partitioned lh perm left pivot i \<Longrightarrow>
   \<exists>perm' pivot'. partition_loop lh perm pivot i right = Some (perm', pivot') \<and>
     left \<le> pivot' \<and> pivot' < right \<and> permuted_within left right perm perm' \<and>
     partitioned lh perm' left pivot' right"
proof (induction lh perm pivot i right rule: partition_loop.induct)
  case (1 lh perm pivot i right)
  note tot = "1.prems"(1) and sub = "1.prems"(2) and b = "1.prems"(3-7) and inv = "1.prems"(8)
  show ?case
  proof (cases "i < right")
    case False
    then have e: "partition_loop lh perm pivot i right = Some (perm, pivot)"
      by (simp add: partition_loop.simps [of lh perm pivot i right])
    from False b have "i = right" by simp
    with inv b e show ?thesis
      by (simp add: permuted_within_refl)
  next
    case True
    have ni: "nat i < length perm" "nat pivot < length perm" "nat pivot \<noteq> nat i"
      using b True by auto
    have ix: "index perm i = Some (perm ! nat i)" "index perm pivot = Some (perm ! nat pivot)"
      using b True by (auto simp: index_def)
    have "perm ! nat i \<in> S" "perm ! nat pivot \<in> S"
      using sub ni by auto
    with tot have "linesLess lh (perm ! nat i) (perm ! nat pivot) \<noteq> None"
      by blast
    then obtain c where L: "linesLess lh (perm ! nat i) (perm ! nat pivot) = Some c"
      by auto
    show ?thesis
    proof (cases c)
      case False
      have "linesLess lh (perm ! k) (perm ! nat pivot) = Some False"
        if k: "pivot < int k" "int k < i + 1" for k
      proof (cases "int k < i")
        case True
        with k inv show ?thesis unfolding partitioned_def by blast
      next
        case False
        with k have "k = nat i" by simp
        with L \<open>\<not> c\<close> show ?thesis by simp
      qed
      with inv have inv': "partitioned lh perm left pivot (i + 1)"
        unfolding partitioned_def by blast
      have b': "pivot < i + 1" "i + 1 \<le> right"
        using b True by auto
      have cF: "c = False" using False by simp
      from "1.IH"(3) [OF True ix(1) ix(2) L cF tot sub b(1) b(2) b'(1) b'(2) b(5) inv']
      show ?thesis
        using True ix L False
        by (simp add: partition_loop.simps [of lh perm pivot i right])
    next
      case c: True
      then have cT: "c = True" by simp
      show ?thesis
      proof (cases "i = pivot + 1")
        case True
        let ?perm1 = "perm[nat pivot := perm ! nat i, nat i := perm ! nat pivot]"
        have w1: "permuted_within left right perm ?perm1"
          using swap_within [of left pivot i right perm] b \<open>i < right\<close> by simp
        have sub1: "set ?perm1 \<subseteq> S"
          using permuted_within_set [OF w1] sub by simp
        have len1: "right \<le> int (length ?perm1)"
          using b by simp
        have pv: "?perm1 ! nat (pivot + 1) = perm ! nat pivot"
          using True ni by simp
        have "linesLess lh (?perm1 ! k) (?perm1 ! nat (pivot + 1)) = Some True"
          if k: "left \<le> int k" "int k < pivot + 1" for k
        proof (cases "int k < pivot")
          case True
          then have "k \<noteq> nat pivot" "k \<noteq> nat i" using \<open>i = pivot + 1\<close> by auto
          then have "?perm1 ! k = perm ! k" by simp
          with True k inv pv show ?thesis unfolding partitioned_def by simp
        next
          case False
          with k have "k = nat pivot" by simp
          then have "?perm1 ! k = perm ! nat i" using ni by simp
          with L c pv show ?thesis by simp
        qed
        then have inv1: "partitioned lh ?perm1 left (pivot + 1) (i + 1)"
          unfolding partitioned_def using True by auto
        have b': "left \<le> pivot + 1" "pivot + 1 < i + 1" "i + 1 \<le> right"
          using b \<open>i < right\<close> by auto
        from "1.IH"(1) [OF \<open>i < right\<close> ix(1) ix(2) L cT True tot sub1 b(1) b'(1) b'(2) b'(3) len1 inv1]
        obtain perm' pivot' where r:
          "partition_loop lh ?perm1 (pivot + 1) (i + 1) right = Some (perm', pivot')"
          "left \<le> pivot'" "pivot' < right" "permuted_within left right ?perm1 perm'"
          "partitioned lh perm' left pivot' right"
          by blast
        have "partition_loop lh perm pivot i right = Some (perm', pivot')"
          apply (subst partition_loop.simps)
          using \<open>i < right\<close> ix L c True r(1) apply simp
          done
        with r permuted_within_trans [OF w1 r(4)] show ?thesis
          by blast
      next
        case False
        let ?perm1 = "perm[nat pivot := perm ! nat i, nat (pivot + 1) := perm ! nat pivot,
                          nat i := perm ! nat (pivot + 1)]"
        have lt: "pivot + 1 < i" using False b by simp
        have ix3: "index perm (pivot + 1) = Some (perm ! nat (pivot + 1))"
          using b lt \<open>i < right\<close> by (auto simp: index_def)
        have w1: "permuted_within left right perm ?perm1"
          using rotate_within [of left pivot i right perm] b lt \<open>i < right\<close> by simp
        have sub1: "set ?perm1 \<subseteq> S"
          using permuted_within_set [OF w1] sub by simp
        have len1: "right \<le> int (length ?perm1)"
          using b by simp
        have n3: "nat (pivot + 1) < length perm" "nat (pivot + 1) \<noteq> nat i"
          "nat (pivot + 1) \<noteq> nat pivot"
          using b lt \<open>i < right\<close> by auto
        have pv: "?perm1 ! nat (pivot + 1) = perm ! nat pivot"
          using ni n3 by simp
        have l1: "linesLess lh (?perm1 ! k) (?perm1 ! nat (pivot + 1)) = Some True"
          if k: "left \<le> int k" "int k < pivot + 1" for k
        proof (cases "int k < pivot")
          case True
          then have "k \<noteq> nat pivot" "k \<noteq> nat i" "k \<noteq> nat (pivot + 1)" using lt by auto
          then have "?perm1 ! k = perm ! k" by simp
          with True k inv pv show ?thesis unfolding partitioned_def by simp
        next
          case False
          with k have "k = nat pivot" by simp
          then have "?perm1 ! k = perm ! nat i" using ni n3 by simp
          with L c pv show ?thesis by simp
        qed
        have l2: "linesLess lh (?perm1 ! k) (?perm1 ! nat (pivot + 1)) = Some False"
          if k: "pivot + 1 < int k" "int k < i + 1" for k
        proof (cases "int k < i")
          case True
          with k b have "k \<noteq> nat pivot" "k \<noteq> nat i" "k \<noteq> nat (pivot + 1)" by auto
          then have "?perm1 ! k = perm ! k" by simp
          moreover have "linesLess lh (perm ! k) (perm ! nat pivot) = Some False"
            using inv k True unfolding partitioned_def by simp
          ultimately show ?thesis using pv by simp
        next
          case False
          with k have "k = nat i" by simp
          then have "?perm1 ! k = perm ! nat (pivot + 1)" using ni by simp
          moreover have "linesLess lh (perm ! nat (pivot + 1)) (perm ! nat pivot) = Some False"
            using inv lt b unfolding partitioned_def by simp
          ultimately show ?thesis using pv by simp
        qed
        from l1 l2 have inv1: "partitioned lh ?perm1 left (pivot + 1) (i + 1)"
          unfolding partitioned_def by blast
        have b': "left \<le> pivot + 1" "pivot + 1 < i + 1" "i + 1 \<le> right"
          using b \<open>i < right\<close> by auto
        from "1.IH"(2) [OF \<open>i < right\<close> ix(1) ix(2) L cT False ix3 tot sub1 b(1) b'(1) b'(2) b'(3) len1 inv1]
        obtain perm' pivot' where r:
          "partition_loop lh ?perm1 (pivot + 1) (i + 1) right = Some (perm', pivot')"
          "left \<le> pivot'" "pivot' < right" "permuted_within left right ?perm1 perm'"
          "partitioned lh perm' left pivot' right"
          by blast
        have "partition_loop lh perm pivot i right = Some (perm', pivot')"
          using \<open>i < right\<close> ix ix3 L c False r(1)
          by (simp add: partition_loop.simps [of lh perm pivot i right])
        with r permuted_within_trans [OF w1 r(4)] show ?thesis
          by blast
      qed
    qed
  qed
qed

lemma quickSort_spec:
  "\<forall>x \<in> S. \<forall>y \<in> S. linesLess lh x y \<noteq> None \<Longrightarrow>
   \<forall>x \<in> S. \<forall>y \<in> S. linesLess lh x y = Some True \<longrightarrow> linesLess lh y x = Some False \<Longrightarrow>
   set perm \<subseteq> S \<Longrightarrow> 0 \<le> left \<Longrightarrow> right \<le> int (length perm) \<Longrightarrow>
   \<exists>perm'. quickSort lh perm left right = Some perm' \<and>
     permuted_within left right perm perm' \<and>
     (\<forall>k. left \<le> int k \<and> int k + 1 < right \<longrightarrow>
        linesLess lh (perm' ! Suc k) (perm' ! k) = Some False)"
proof (induction lh perm left right rule: quickSort.induct)
  case (1 lh perm left right)
  note tot = "1.prems"(1) and asym = "1.prems"(2) and sub = "1.prems"(3) and b = "1.prems"(4,5)
  show ?case
  proof (cases "right - left \<le> 1")
    case True
    then have "quickSort lh perm left right = Some perm"
      by (simp add: quickSort.simps [of lh perm left right])
    with True show ?thesis
      by (auto simp: permuted_within_refl)
  next
    case False
    have pb: "left \<le> left" "left < left + 1" "left + 1 \<le> right"
      using False by auto
    have inv0: "partitioned lh perm left left (left + 1)"
      unfolding partitioned_def by auto
    from partition_loop_spec [OF tot sub b(1) pb b(2) inv0]
    obtain perm1 pivot where p:
      "partition_loop lh perm left (left + 1) right = Some (perm1, pivot)"
      "left \<le> pivot" "pivot < right" "permuted_within left right perm perm1"
      "partitioned lh perm1 left pivot right"
      by blast
    have sub1: "set perm1 \<subseteq> S"
      using permuted_within_set [OF p(4)] sub by simp
    have len1: "length perm1 = length perm"
      using p(4) unfolding permuted_within_def by simp
    have b1: "pivot \<le> int (length perm1)"
      using len1 p(3) b(2) by simp
    from "1.IH"(1) [OF False p(1) refl tot asym sub1 b(1) b1]
    obtain perm2 where q:
      "quickSort lh perm1 left pivot = Some perm2"
      "permuted_within left pivot perm1 perm2"
      "\<forall>k. left \<le> int k \<and> int k + 1 < pivot \<longrightarrow>
         linesLess lh (perm2 ! Suc k) (perm2 ! k) = Some False"
      by blast
    have sub2: "set perm2 \<subseteq> S"
      using permuted_within_set [OF q(2)] sub1 by simp
    have len2: "length perm2 = length perm"
      using q(2) len1 unfolding permuted_within_def by simp
    have b2: "0 \<le> pivot + 1" "right \<le> int (length perm2)"
      using len2 p(2) b by auto
    from "1.IH"(2) [OF False p(1) refl q(1) tot asym sub2 b2]
    obtain perm3 where r:
      "quickSort lh perm2 (pivot + 1) right = Some perm3"
      "permuted_within (pivot + 1) right perm2 perm3"
      "\<forall>k. pivot + 1 \<le> int k \<and> int k + 1 < right \<longrightarrow>
         linesLess lh (perm3 ! Suc k) (perm3 ! k) = Some False"
      by blast
    have qs: "quickSort lh perm left right = Some perm3"
      using False p(1) q(1) r(1) by (simp add: quickSort.simps [of lh perm left right])
    have w12: "permuted_within left right perm1 perm2"
      using permuted_within_mono [OF q(2), of left right] p(3) b(2) len1 by simp
    have w23: "permuted_within left right perm2 perm3"
      using permuted_within_mono [OF r(2), of left right] p(2) b(2) len2 by simp
    have w: "permuted_within left right perm perm3"
      using permuted_within_trans [OF p(4) permuted_within_trans [OF w12 w23]] .
    have F1: "perm3 ! j = perm2 ! j" if "int j \<le> pivot" for j
      using r(2) that p(3) b(2) len2 unfolding permuted_within_def by auto
    have F2: "perm2 ! j = perm1 ! j" if "pivot \<le> int j" "int j < right" for j
      using q(2) that b(2) len1 unfolding permuted_within_def by auto
    have sorted: "linesLess lh (perm3 ! Suc k) (perm3 ! k) = Some False"
      if k: "left \<le> int k" "int k + 1 < right" for k
    proof -
      consider "int k + 1 < pivot" | "int k + 1 = pivot" | "int k = pivot" | "pivot < int k"
        by linarith
      then show ?thesis
      proof cases
        case 1
        then have "perm3 ! k = perm2 ! k" "perm3 ! Suc k = perm2 ! Suc k"
          using F1 [of k] F1 [of "Suc k"] by auto
        with q(3) k 1 show ?thesis by simp
      next
        case 2
        then have e: "perm3 ! k = perm2 ! k" "perm3 ! Suc k = perm2 ! Suc k"
          using F1 [of k] F1 [of "Suc k"] by auto
        have sp: "Suc k = nat pivot" using 2 by simp
        have e2: "perm2 ! Suc k = perm1 ! nat pivot"
          using F2 [of "Suc k"] 2 k sp by simp
        from q(2) k 2 obtain j where j: "left \<le> int j" "int j < pivot" "perm2 ! k = perm1 ! j"
          unfolding permuted_within_def by (metis zless_add1_eq)
        have "linesLess lh (perm1 ! j) (perm1 ! nat pivot) = Some True"
          using p(5) j unfolding partitioned_def by simp
        moreover have "perm1 ! j \<in> S" "perm1 ! nat pivot \<in> S"
          using sub1 j p(2,3) b len1 by (auto simp: subset_iff)
        ultimately have "linesLess lh (perm1 ! nat pivot) (perm1 ! j) = Some False"
          using asym by blast
        with e e2 j show ?thesis by simp
      next
        case 3
        then have kp: "k = nat pivot" by simp
        have e: "perm3 ! k = perm1 ! nat pivot"
          using F1 [of k] F2 [of k] 3 k kp by simp
        from r(2) k 3 obtain j where j: "pivot + 1 \<le> int j" "int j < right" "perm3 ! Suc k = perm2 ! j"
          unfolding permuted_within_def
          by (metis add.commute of_nat_Suc order_refl)
        have "perm2 ! j = perm1 ! j"
          using F2 [of j] j by simp
        moreover have "linesLess lh (perm1 ! j) (perm1 ! nat pivot) = Some False"
          using p(5) j unfolding partitioned_def by simp
        ultimately show ?thesis using e j by simp
      next
        case 4
        with r(3) k show ?thesis by simp
      qed
    qed
    from qs w sorted show ?thesis by blast
  qed
qed

lemma lines_nonneg: "0 \<le> lines lh"
  by (induction lh) auto

lemma identity_perm: "map (\<lambda>i. int i + 1) [0..<n] = [1..int n]"
proof (induction n)
  case 0
  then show ?case by simp
next
  case (Suc n)
  have "[1..int (Suc n)] = [1..int n] @ [int n + 1]"
    using upto_rec2 [of 1 "int n + 1"] by (simp add: add.commute)
  with Suc show ?case by simp
qed

lemma newAlphabetizer_spec:
  assumes "valid lh"
  shows "\<exists>perm. newAlphabetizer lh = Some (Alphabetizer lh perm) \<and>
           int (length perm) = lines lh \<and> mset perm = mset [1..lines lh] \<and>
           (\<forall>k. int k + 1 < lines lh \<longrightarrow>
              linesLess lh (perm ! Suc k) (perm ! k) = Some False)"
proof -
  let ?S = "set [1..lines lh]"
  let ?perm = "map (\<lambda>i. int i + 1) [0..<nat (lines lh)]"
  have e: "?perm = [1..lines lh]"
    using identity_perm [of "nat (lines lh)"] lines_nonneg [of lh] by simp
  have tot: "\<forall>x \<in> ?S. \<forall>y \<in> ?S. linesLess lh x y \<noteq> None"
    using linesLess_ranks [OF assms] by simp
  have asym: "\<forall>x \<in> ?S. \<forall>y \<in> ?S. linesLess lh x y = Some True \<longrightarrow> linesLess lh y x = Some False"
  proof (intro ballI impI)
    fix x y
    assume x: "x \<in> ?S" and y: "y \<in> ?S" and l: "linesLess lh x y = Some True"
    from l linesLess_ranks [OF assms x y] have "line_ranks lh x < line_ranks lh y"
      by simp
    then have "\<not> line_ranks lh y < line_ranks lh x"
      by simp
    with linesLess_ranks [OF assms y x] show "linesLess lh y x = Some False"
      by simp
  qed
  have sub: "set ?perm \<subseteq> ?S"
    using e by simp
  have len: "int (length ?perm) = lines lh"
    using lines_nonneg [of lh] by simp
  from quickSort_spec [OF tot asym sub, of 0 "int (length ?perm)"]
  obtain perm' where q:
    "quickSort lh ?perm 0 (int (length ?perm)) = Some perm'"
    "permuted_within 0 (int (length ?perm)) ?perm perm'"
    "\<forall>k. 0 \<le> int k \<and> int k + 1 < int (length ?perm) \<longrightarrow>
       linesLess lh (perm' ! Suc k) (perm' ! k) = Some False"
    by auto
  have n: "newAlphabetizer lh = Some (Alphabetizer lh perm')"
    using q(1) by (simp add: newAlphabetizer_def Let_def)
  have l: "int (length perm') = lines lh"
    using q(2) len unfolding permuted_within_def by simp
  have m: "mset perm' = mset [1..lines lh]"
    using q(2) e unfolding permuted_within_def by simp
  have srt: "\<forall>k. int k + 1 < lines lh \<longrightarrow> linesLess lh (perm' ! Suc k) (perm' ! k) = Some False"
    using q(3) len by simp
  from n l m srt show ?thesis by blast
qed

lemma wordsLess_loop_Alphabetizer:
  "index perm (a - 1) = Some pa \<Longrightarrow> index perm (b - 1) = Some pb \<Longrightarrow>
   wordsLess_loop (Alphabetizer lh perm) a w1 b w2 c1 c2 ch =
     wordsLess_loop lh pa w1 pb w2 c1 c2 ch"
proof (induction lh pa w1 pb w2 c1 c2 ch rule: wordsLess_loop.induct)
  case (1 lh pa w1 pb w2 c1 c2 ch)
  then show ?case
    by (simp add: wordsLess_loop.simps [of "Alphabetizer lh perm" a w1 b w2 c1 c2 ch]
          wordsLess_loop.simps [of lh pa w1 pb w2 c1 c2 ch] Let_def split: option.splits)
qed

lemma wordsLess_Alphabetizer:
  "index perm (a - 1) = Some pa \<Longrightarrow> index perm (b - 1) = Some pb \<Longrightarrow>
   wordsLess (Alphabetizer lh perm) a w1 b w2 = wordsLess lh pa w1 pb w2"
  by (simp add: wordsLess_def wordsLess_loop_Alphabetizer split: option.splits)

lemma linesLess_loop_Alphabetizer:
  "index perm (a - 1) = Some pa \<Longrightarrow> index perm (b - 1) = Some pb \<Longrightarrow>
   linesLess_loop (Alphabetizer lh perm) a b ws1 ws2 wd = linesLess_loop lh pa pb ws1 ws2 wd"
proof (induction lh pa pb ws1 ws2 wd rule: linesLess_loop.induct)
  case (1 lh pa pb ws1 ws2 wd)
  then show ?case
    by (simp add: linesLess_loop.simps [of "Alphabetizer lh perm" a b ws1 ws2 wd]
          linesLess_loop.simps [of lh pa pb ws1 ws2 wd] wordsLess_Alphabetizer
          split: option.splits bool.splits)
qed

lemma linesLess_Alphabetizer:
  "index perm (a - 1) = Some pa \<Longrightarrow> index perm (b - 1) = Some pb \<Longrightarrow>
   linesLess (Alphabetizer lh perm) a b = linesLess lh pa pb"
  by (simp add: linesLess_def linesLess_loop_Alphabetizer split: option.splits)

text \<open>
  Claim C7. Over a valid line holder of \<open>N\<close> lines, for every \<open>N\<close> (0 too),
  \<^verbatim>\<open>newAlphabetizer\<close> returns, and the permutation of the view has \<open>N\<close> entries
  that are the numbers 1 to \<open>N\<close>, each exactly once. The shifter built over a line
  storage is such a line holder (no line having \<open>2 ^ 62\<close> words or more).
\<close>

theorem newAlphabetizer_bijection:
  "(valid lh \<longrightarrow>
      (\<exists>perm. newAlphabetizer lh = Some (Alphabetizer lh perm) \<and>
         int (length perm) = lines lh \<and> mset perm = mset [1..lines lh] \<and>
         distinct perm \<and> set perm = {1..lines lh})) \<and>
   ((\<forall>l \<in> set array. int (length l) < 2 ^ 62) \<longrightarrow>
      (\<exists>shifter perm. newCircularShifter (LineStorage array) = Some shifter \<and>
         newAlphabetizer shifter = Some (Alphabetizer shifter perm) \<and>
         int (length perm) = lines shifter \<and> mset perm = mset [1..lines shifter] \<and>
         distinct perm \<and> set perm = {1..lines shifter}))"
proof -
  have g: "\<exists>perm. newAlphabetizer lh = Some (Alphabetizer lh perm) \<and>
         int (length perm) = lines lh \<and> mset perm = mset [1..lines lh] \<and>
         distinct perm \<and> set perm = {1..lines lh}" if v: "valid lh" for lh
  proof -
    from newAlphabetizer_spec [OF v] obtain perm where p:
      "newAlphabetizer lh = Some (Alphabetizer lh perm)" "int (length perm) = lines lh"
      "mset perm = mset [1..lines lh]"
      by blast
    have "distinct perm"
      using p(3) by (metis distinct_upto mset_eq_imp_distinct_iff)
    moreover have "set perm = {1..lines lh}"
      using mset_eq_setD [OF p(3)] by simp
    ultimately show ?thesis
      using p by blast
  qed
  have "\<exists>shifter perm. newCircularShifter (LineStorage array) = Some shifter \<and>
         newAlphabetizer shifter = Some (Alphabetizer shifter perm) \<and>
         int (length perm) = lines shifter \<and> mset perm = mset [1..lines shifter] \<and>
         distinct perm \<and> set perm = {1..lines shifter}"
    if b: "\<forall>l \<in> set array. int (length l) < 2 ^ 62"
  proof -
    from valid_newCircularShifter [OF b] obtain shifter where
      s: "newCircularShifter (LineStorage array) = Some shifter" "valid shifter"
      by blast
    with g [OF s(2)] show ?thesis
      by blast
  qed
  with g show ?thesis
    by blast
qed

theorem newAlphabetizer_bijection_witness:
  "(\<exists>perm. newAlphabetizer (LineStorage [[[98]], [[97]], [[99]]]) =
       Some (Alphabetizer (LineStorage [[[98]], [[97]], [[99]]]) perm) \<and>
     int (length perm) = 3 \<and> mset perm = mset [1, 2, 3] \<and> distinct perm \<and>
     set perm = {1..3}) \<and>
   newAlphabetizer (LineStorage []) = Some (Alphabetizer (LineStorage []) []) \<and>
   (\<exists>shifter perm. newCircularShifter (LineStorage [[[97], [98]]]) = Some shifter \<and>
      newAlphabetizer shifter = Some (Alphabetizer shifter perm) \<and>
      int (length perm) = lines shifter \<and> mset perm = mset [1..lines shifter] \<and>
      distinct perm \<and> set perm = {1..lines shifter})"
proof -
  have v: "valid (LineStorage [[[98]], [[97]], [[99]]])"
    by (simp add: valid_def upto_rec1 index_def)
  have v0: "valid (LineStorage [])"
    by (simp add: valid_def)
  have b: "\<forall>l \<in> set [[[97], [98 :: byte]]]. int (length l) < 2 ^ 62"
    by simp
  show ?thesis
    using newAlphabetizer_bijection [of "LineStorage [[[98]], [[97]], [[99]]]" "[[[97], [98]]]"]
      newAlphabetizer_bijection [of "LineStorage []" "[]"] v v0 b
    by (simp add: upto_rec1)
qed

text \<open>
  Claim C3. Over a valid line holder, \<^verbatim>\<open>newAlphabetizer\<close> returns a view with the same
  number of lines, and it is sorted: of two adjacent lines of the view, at \<open>i\<close> and at
  \<open>i + 1\<close>, the second is not less than the first, \<^verbatim>\<open>linesLess\<close> being asked on the
  view itself. Whether the line holder was sorted before makes no difference. The
  shifter built over a line storage is such a line holder (no line having \<open>2 ^ 62\<close>
  words or more): the rotations come out sorted.
\<close>

theorem newAlphabetizer_sorted:
  "(valid lh \<longrightarrow>
      (\<exists>al. newAlphabetizer lh = Some al \<and> lines al = lines lh \<and>
         (\<forall>i \<in> set [1..lines lh - 1]. linesLess al (i + 1) i = Some False))) \<and>
   ((\<forall>l \<in> set array. int (length l) < 2 ^ 62) \<longrightarrow>
      (\<exists>shifter al. newCircularShifter (LineStorage array) = Some shifter \<and>
         newAlphabetizer shifter = Some al \<and> lines al = lines shifter \<and>
         (\<forall>i \<in> set [1..lines al - 1]. linesLess al (i + 1) i = Some False)))"
proof -
  have g: "\<exists>al. newAlphabetizer lh = Some al \<and> lines al = lines lh \<and>
         (\<forall>i \<in> set [1..lines lh - 1]. linesLess al (i + 1) i = Some False)"
    if v: "valid lh" for lh
  proof -
    from newAlphabetizer_spec [OF v] obtain perm where p:
      "newAlphabetizer lh = Some (Alphabetizer lh perm)" "int (length perm) = lines lh"
      "\<forall>k. int k + 1 < lines lh \<longrightarrow> linesLess lh (perm ! Suc k) (perm ! k) = Some False"
      by blast
    have "linesLess (Alphabetizer lh perm) (i + 1) i = Some False"
      if i: "i \<in> set [1..lines lh - 1]" for i
    proof -
      have r: "1 \<le> i" "i < lines lh" using i by auto
      have a: "index perm (i + 1 - 1) = Some (perm ! Suc (nat (i - 1)))"
        using r p(2) by (auto simp: index_def Suc_nat_eq_nat_zadd1)
      have b: "index perm (i - 1) = Some (perm ! nat (i - 1))"
        using r p(2) by (auto simp: index_def)
      have "int (nat (i - 1)) + 1 < lines lh"
        using r by simp
      with p(3) have "linesLess lh (perm ! Suc (nat (i - 1))) (perm ! nat (i - 1)) = Some False"
        by blast
      with linesLess_Alphabetizer [OF a b] show ?thesis
        by simp
    qed
    with p(1) show ?thesis
      by (intro exI [of _ "Alphabetizer lh perm"]) simp
  qed
  have "\<exists>shifter al. newCircularShifter (LineStorage array) = Some shifter \<and>
         newAlphabetizer shifter = Some al \<and> lines al = lines shifter \<and>
         (\<forall>i \<in> set [1..lines al - 1]. linesLess al (i + 1) i = Some False)"
    if b: "\<forall>l \<in> set array. int (length l) < 2 ^ 62"
  proof -
    from valid_newCircularShifter [OF b] obtain shifter where
      s: "newCircularShifter (LineStorage array) = Some shifter" "valid shifter"
      by blast
    from g [OF s(2)] obtain al where "newAlphabetizer shifter = Some al"
      "lines al = lines shifter"
      "\<forall>i \<in> set [1..lines shifter - 1]. linesLess al (i + 1) i = Some False"
      by blast
    with s(1) show ?thesis
      by auto
  qed
  with g show ?thesis
    by blast
qed

theorem newAlphabetizer_sorted_witness:
  "(\<exists>al. newAlphabetizer (LineStorage [[[98]], [[97]], [[99]]]) = Some al \<and>
      lines al = 3 \<and> linesLess al 2 1 = Some False \<and> linesLess al 3 2 = Some False) \<and>
   (\<exists>shifter al. newCircularShifter (LineStorage [[[97], [98]]]) = Some shifter \<and>
      newAlphabetizer shifter = Some al \<and> lines al = 2 \<and> linesLess al 2 1 = Some False)"
proof -
  have v: "valid (LineStorage [[[98]], [[97]], [[99]]])"
    by (simp add: valid_def upto_rec1 index_def)
  have b: "\<forall>l \<in> set [[[97], [98 :: byte]]]. int (length l) < 2 ^ 62"
    by simp
  have n: "newCircularShifter (LineStorage [[[97], [98]]]) =
      Some (CircularShifter (LineStorage [[[97], [98]]])
        [\<lparr>line = 1, startWord = 1\<rparr>, \<lparr>line = 1, startWord = 2\<rparr>])"
    by code_simp
  show ?thesis
    using newAlphabetizer_sorted [of "LineStorage [[[98]], [[97]], [[99]]]" "[[[97], [98]]]"] v b n
    by (auto simp add: upto_rec1)
qed

section \<open>Properties of input and output\<close>

lemma input_loop_chars:
  "\<forall>b \<in> set cs. b \<noteq> 32 \<and> b \<noteq> 10 \<Longrightarrow>
   input_loop (map Byte cs @ rs) (pre @ [wsl @ [w0]]) (int (length pre) + 1)
     (int (length wsl) + 1) (int (length w0) + 1) =
   input_loop rs (pre @ [wsl @ [w0 @ cs]]) (int (length pre) + 1)
     (int (length wsl) + 1) (int (length (w0 @ cs)) + 1)"
proof (induction cs arbitrary: w0)
  case Nil
  then show ?case by simp
next
  case (Cons c cs)
  from Cons.prems have c: "c \<noteq> 32" "c \<noteq> 10" and r: "\<forall>b \<in> set cs. b \<noteq> 32 \<and> b \<noteq> 10"
    by simp_all
  have "int (length w0) + 1 + 1 = int (length (w0 @ [c])) + 1"
    by simp
  with Cons.IH [OF r, of "w0 @ [c]"] c show ?case
    by (simp add: setWord_next_char)
qed

lemma input_loop_new_word:
  assumes "wf_word w"
  shows "input_loop (map Byte w @ rs) (pre @ [wsl]) (int (length pre) + 1)
           (int (length wsl) + 1) 1 =
         input_loop rs (pre @ [wsl @ [w]]) (int (length pre) + 1)
           (int (length wsl) + 1) (int (length w) + 1)"
proof -
  from assms obtain c cs where w: "w = c # cs" and c: "c \<noteq> 32" "c \<noteq> 10"
    and r: "\<forall>b \<in> set cs. b \<noteq> 32 \<and> b \<noteq> 10"
    unfolding wf_word_def by (cases w) auto
  show ?thesis
    using input_loop_chars [OF r, of rs pre wsl "[c]"] c
    by (simp add: w setWord_new_word)
qed

lemma input_loop_new_line:
  assumes "wf_word w"
  shows "input_loop (map Byte w @ rs) pre (int (length pre) + 1) 1 1 =
         input_loop rs (pre @ [[w]]) (int (length pre) + 1) 1 (int (length w) + 1)"
proof -
  from assms obtain c cs where w: "w = c # cs" and c: "c \<noteq> 32" "c \<noteq> 10"
    and r: "\<forall>b \<in> set cs. b \<noteq> 32 \<and> b \<noteq> 10"
    unfolding wf_word_def by (cases w) auto
  show ?thesis
    using input_loop_chars [OF r, of rs pre "[]" "[c]"] c
    by (simp add: w setWord_new_line)
qed

lemma input_loop_more_words:
  "\<forall>w \<in> set ws. wf_word w \<Longrightarrow>
   input_loop (map Byte (concat (map (\<lambda>w. 32 # w) ws)) @ 
      Byte 10 # rs) (pre @ [wsl]) (int (length pre) + 1)
     (int (length wsl)) ch =
   input_loop rs (pre @ [wsl @ ws]) (int (length pre) + 2) 1 1"
proof (induction ws arbitrary: wsl ch)
  case Nil
  then show ?case by (simp add: add.commute [of 2])
next
  case (Cons w ws)
  from Cons.prems have w: "wf_word w" and r: "\<forall>w \<in> set ws. wf_word w"
    by simp_all
  have "input_loop (map Byte (concat (map (\<lambda>w. 32 # w) (w # ws))) @ Byte 10 # rs)
      (pre @ [wsl]) (int (length pre) + 1) (int (length wsl)) ch =
    input_loop (map Byte w @ (map Byte (concat (map (\<lambda>w. 32 # w) ws)) @ Byte 10 # rs))
      (pre @ [wsl]) (int (length pre) + 1) (int (length wsl) + 1) 1"
    by simp
  also have "\<dots> = input_loop (map Byte (concat (map (\<lambda>w. 32 # w) ws)) @ Byte 10 # rs)
      (pre @ [wsl @ [w]]) (int (length pre) + 1) (int (length wsl) + 1) (int (length w) + 1)"
    using input_loop_new_word [OF w] .
  also have "\<dots> = input_loop rs (pre @ [(wsl @ [w]) @ ws]) (int (length pre) + 2) 1 1"
    using Cons.IH [OF r, of "wsl @ [w]" "int (length w) + 1"] by (simp add: add.commute [of 1])
  finally show ?case by simp
qed

lemma join_words_Cons: "join_words (w # ws) = w @ concat (map (\<lambda>w. 32 # w) ws)"
  by (induction ws arbitrary: w) auto

lemma input_loop_line:
  assumes "wf_line l"
  shows "input_loop (map Byte (join_words l @ [10]) @ rs) pre (int (length pre) + 1) 1 1 =
         input_loop rs (pre @ [l]) (int (length pre) + 2) 1 1"
proof -
  from assms obtain w ws where l: "l = w # ws" and w: "wf_word w"
    and r: "\<forall>w \<in> set ws. wf_word w"
    unfolding wf_line_def by (cases l) auto
  have "input_loop (map Byte (join_words l @ [10]) @ rs) pre (int (length pre) + 1) 1 1 =
    input_loop (map Byte w @ (map Byte (concat (map (\<lambda>w. 32 # w) ws)) @ Byte 10 # rs))
      pre (int (length pre) + 1) 1 1"
    by (simp add: l join_words_Cons)
  also have "\<dots> = input_loop (map Byte (concat (map (\<lambda>w. 32 # w) ws)) @ Byte 10 # rs)
      (pre @ [[w]]) (int (length pre) + 1) 1 (int (length w) + 1)"
    using input_loop_new_line [OF w] .
  also have "\<dots> = input_loop rs (pre @ [[w] @ ws]) (int (length pre) + 2) 1 1"
    using input_loop_more_words [OF r, of rs pre "[w]" "int (length w) + 1"] by simp
  finally show ?thesis by (simp add: l)
qed

lemma input_loop_doc:
  "wf_doc d \<Longrightarrow>
   input_loop (map Byte (render d) @ rs) pre (int (length pre) + 1) 1 1 =
     input_loop rs (pre @ d) (int (length (pre @ d)) + 1) 1 1"
proof (induction d arbitrary: pre)
  case Nil
  then show ?case by (simp add: render_def)
next
  case (Cons l d)
  from Cons.prems have l: "wf_line l" and r: "wf_doc d"
    by (simp_all add: wf_doc_def)
  have "input_loop (map Byte (render (l # d)) @ rs) pre (int (length pre) + 1) 1 1 =
    input_loop (map Byte (join_words l @ [10]) @ (map Byte (render d) @ rs))
      pre (int (length pre) + 1) 1 1"
    by (simp add: render_def)
  also have "\<dots> = input_loop (map Byte (render d) @ rs) (pre @ [l]) (int (length pre) + 2) 1 1"
    using input_loop_line [OF l] .
  also have "\<dots> = input_loop rs ((pre @ [l]) @ d) (int (length ((pre @ [l]) @ d)) + 1) 1 1"
    using Cons.IH [OF r, of "pre @ [l]"] by (simp add: add.commute [of 2])
  finally show ?case by simp
qed

lemma input_loop_separators:
  "set seps \<subseteq> {32, 10} \<Longrightarrow> input_loop (map Byte seps) array ln wd ch = (Inr None, array)"
  by (induction seps arbitrary: ln wd ch) auto

lemma input_loop_trailing:
  "set seps \<subseteq> {32, 10} \<Longrightarrow>
   input_loop (rs @ map Byte seps) array ln wd ch = input_loop rs array ln wd ch"
proof (induction rs array ln wd ch rule: input_loop.induct)
  case (1 array ln wd ch)
  then show ?case by (simp add: input_loop_separators)
next
  case (2 rs array ln wd ch)
  then show ?case by simp
next
  case (3 rs array ln wd ch)
  then show ?case by simp
next
  case (4 b rs array ln wd ch)
  then show ?case by (auto split: prod.splits option.splits)
qed


lemma output_chars_eq:
  "index d (ln - 1) = Some l \<Longrightarrow> index l (wd - 1) = Some (xs @ ys) \<Longrightarrow>
   output_chars (LineStorage d) ln wd (int (length xs) + 1) w = Some (w @ ys)"
proof (induction ys arbitrary: xs w)
  case Nil
  then show ?case
    by (simp add: output_chars.simps [of "LineStorage d" ln wd "int (length xs) + 1" w])
next
  case (Cons y ys)
  have "index l (wd - 1) = Some ((xs @ [y]) @ ys)"
    using Cons.prems(2) by simp
  from Cons.IH [OF Cons.prems(1) this, of "w @ [y]"] Cons.prems show ?case
    by (simp add: output_chars.simps [of "LineStorage d" ln wd "int (length xs) + 1" w]
          index_def add.commute [of 1] add.commute [of 2])
qed

lemma join_words_if:
  "join_words (y # ys) = y @ (if ys = [] then [] else 32 # join_words ys)"
  by (cases ys) auto

lemma output_words_eq:
  "index d (ln - 1) = Some (xs @ ys) \<Longrightarrow>
   output_words (LineStorage d) ln (int (length xs) + 1) w = Some (w @ join_words ys)"
proof (induction ys arbitrary: xs w)
  case Nil
  then show ?case
    by (simp add: output_words.simps [of "LineStorage d" ln "int (length xs) + 1" w])
next
  case (Cons y ys)
  have i: "index d (ln - 1) = Some ((xs @ [y]) @ ys)"
    using Cons.prems by simp
  have j: "index (xs @ y # ys) (int (length xs) + 1 - 1) = Some ([] @ y)"
    by (simp add: index_def)
  have c: "output_chars (LineStorage d) ln (int (length xs) + 1) 1 w = Some (w @ y)"
    using output_chars_eq [OF Cons.prems j, of w] by simp
  have "output_words (LineStorage d) ln (int (length xs) + 1) w =
      output_words (LineStorage d) ln (int (length (xs @ [y])) + 1)
        (if ys = [] then w @ y else (w @ y) @ [32])"
    using Cons.prems c
    by (cases ys)
      (simp_all add: output_words.simps [of "LineStorage d" ln "int (length xs) + 1" w]
          add.commute [of 1] add.commute [of 2])
  also have "\<dots> = Some ((if ys = [] then w @ y else (w @ y) @ [32]) @ join_words ys)"
    using Cons.IH [OF i] .
  finally show ?case
    by (simp add: join_words_if)
qed

lemma output_lines_eq:
  "output_lines (LineStorage (xs @ ys)) (int (length xs) + 1) w = Some (w @ render ys)"
proof (induction ys arbitrary: xs w)
  case Nil
  then show ?case
    by (simp add: output_lines.simps [of "LineStorage xs" "int (length xs) + 1" w]
          render_def)
next
  case (Cons y ys)
  have j: "index (xs @ y # ys) (int (length xs) + 1 - 1) = Some ([] @ y)"
    by (simp add: index_def)
  have c: "output_words (LineStorage (xs @ y # ys)) (int (length xs) + 1) 1 w =
      Some (w @ join_words y)"
    using output_words_eq [OF j, of w] by simp
  have "output_lines (LineStorage (xs @ y # ys)) (int (length xs) + 1) w =
      output_lines (LineStorage ((xs @ [y]) @ ys)) (int (length (xs @ [y])) + 1)
        ((w @ join_words y) @ [10])"
    using c
    by (simp add: output_lines.simps [of "LineStorage (xs @ y # ys)" "int (length xs) + 1" w]
          add.commute [of 1] add.commute [of 2])
  also have "\<dots> = Some (((w @ join_words y) @ [10]) @ render ys)"
    using Cons.IH [of "xs @ [y]"] .
  finally show ?case
    by (simp add: render_def)
qed



lemma setWord_fails_word:
  assumes "int (length array) \<le> ln" "0 \<le> wd"
    and "ln = int (length array) \<longrightarrow> int (length (last array)) \<le> wd"
  shows "fst (setWord array ln (wd + 2) ch v) \<noteq> None"
proof -
  consider "ln > int (length array) + 1" | "ln = int (length array) + 1" | "ln = int (length array)"
    using assms(1) by linarith
  then show ?thesis
  proof cases
    case 1
    then show ?thesis by (simp add: setWord_def Let_def)
  next
    case 2
    with assms(2) show ?thesis by (simp add: setWord_def Let_def)
  next
    case 3
    show ?thesis
    proof (cases array rule: rev_cases)
      case Nil
      with 3 show ?thesis by (simp add: setWord_def Let_def index_def)
    next
      case (snoc xs x)
      with 3 assms(3) show ?thesis by (simp add: setWord_def Let_def index_def)
    qed
  qed
qed

lemma setWord_fails_line:
  "int (length array) \<le> ln \<Longrightarrow> setWord array (ln + 2) wd ch v = (Some ERLSBL, array)"
  by (simp add: setWord_def Let_def)

lemma input_loop_prefix:
  assumes tail: "\<And>array ln wd ch. int (length array) \<le> ln \<Longrightarrow> 1 \<le> wd \<Longrightarrow>
      (ln = int (length array) \<longrightarrow> int (length (last array)) \<le> wd) \<Longrightarrow>
      isl (fst (input_loop tail array ln wd ch))"
  shows "int (length array) \<le> ln \<Longrightarrow> 1 \<le> wd \<Longrightarrow>
      (ln = int (length array) \<longrightarrow> int (length (last array)) \<le> wd) \<Longrightarrow>
      isl (fst (input_loop (map Byte bs @ tail) array ln wd ch))"
proof (induction bs arbitrary: array ln wd ch)
  case Nil
  then show ?case using tail by simp
next
  case (Cons x bs)
  consider "x = 32" | "x = 10" | "x \<noteq> 32 \<and> x \<noteq> 10" by blast
  then show ?case
  proof cases
    case 1
    have "isl (fst (input_loop (map Byte bs @ tail) array ln (wd + 1) 1))"
      using Cons.prems by (intro Cons.IH) auto
    with 1 show ?thesis by simp
  next
    case 2
    have "isl (fst (input_loop (map Byte bs @ tail) array (ln + 1) 1 1))"
      using Cons.prems by (intro Cons.IH) auto
    with 2 show ?thesis by simp
  next
    case 3
    show ?thesis
    proof (cases "setWord array ln wd ch x")
      case (Pair p array1)
      show ?thesis
      proof (cases p)
        case None
        from setWord_success [OF Pair [unfolded None]]
        have "isl (fst (input_loop (map Byte bs @ tail) array1 ln wd (ch + 1)))"
          by (intro Cons.IH) auto
        with 3 Pair None show ?thesis by simp
      next
        case (Some e)
        with 3 Pair show ?thesis by simp
      qed
    qed
  qed
qed

lemma tail_spaces:
  assumes "b \<noteq> 32" "b \<noteq> 10" "int (length array) \<le> ln" "1 \<le> wd"
    "ln = int (length array) \<longrightarrow> int (length (last array)) \<le> wd"
  shows "isl (fst (input_loop (map Byte ([32, 32, b] @ rest)) array ln wd ch))"
proof -
  have "fst (setWord array ln (wd + 2) 1 b) \<noteq> None"
    using assms by (intro setWord_fails_word) auto
  then obtain e array1 where "setWord array ln (wd + 2) 1 b = (Some e, array1)"
    by (cases "setWord array ln (wd + 2) 1 b") auto
  with assms(1,2) show ?thesis
    by (simp add: add.commute [of 2])
qed

lemma tail_newlines:
  assumes "b \<noteq> 32" "b \<noteq> 10" "int (length array) \<le> ln"
  shows "isl (fst (input_loop (map Byte ([10, 10, b] @ rest)) array ln wd ch))"
  using assms setWord_fails_line [OF assms(3), of 1 1 b]
  by (simp add: add.commute [of 2])

lemma tail_leading_space:
  assumes "b \<noteq> 32" "b \<noteq> 10" "int (length array) \<le> ln"
  shows "isl (fst (input_loop (map Byte ([10, 32, b] @ rest)) array ln wd ch))"
proof -
  have "fst (setWord array (ln + 1) 2 1 b) \<noteq> None"
    using assms(3) by (simp add: setWord_def Let_def)
  then obtain e array1 where "setWord array (ln + 1) 2 1 b = (Some e, array1)"
    by (cases "setWord array (ln + 1) 2 1 b") auto
  with assms(1,2) show ?thesis
    by simp
qed

text \<open>
  Claim C2, as amended. \<^verbatim>\<open>input\<close> does check the text, through \<^verbatim>\<open>setWord\<close>: a byte that
  is neither a space nor a newline, after two spaces in a row, after two newlines in a
  row, after a space that starts a line, or after a space or a newline that starts the
  text, ends the call with a panic, whatever comes before (\<open>bs\<close>) and after
  (\<open>rest\<close>). Spaces and newlines at the end of
  the text are accepted and leave no trace: the storage is the one of the text without
  them, so the output of a well-formed document followed by them is the text of the
  document alone.
\<close>

theorem input_rejects_empty_words_and_lines:
  assumes "b \<noteq> 32" "b \<noteq> 10"
  shows "isl (fst (input (Some (map Byte (bs @ [32, 32, b] @ rest))) [])) \<and>
         isl (fst (input (Some (map Byte (bs @ [10, 10, b] @ rest))) [])) \<and>
         isl (fst (input (Some (map Byte (bs @ [10, 32, b] @ rest))) [])) \<and>
         input (Some (map Byte ([32, b] @ rest))) [] = (Inl ERLSBW, []) \<and>
         input (Some (map Byte ([10, b] @ rest))) [] = (Inl ERLSBL, []) \<and>
         (set seps \<subseteq> {32, 10} \<longrightarrow>
            input (Some (map Byte (t @ seps))) [] = input (Some (map Byte t)) [] \<and>
            (wf_doc d \<longrightarrow>
               input (Some (map Byte (render d @ seps))) [] = (Inr None, d) \<and>
               output_text (LineStorage d) = Some (render d)))"
proof -
  have s: "isl (fst (input_loop (map Byte bs @ map Byte ([32, 32, b] @ rest)) [] 1 1 1))"
    by (rule input_loop_prefix) (use assms tail_spaces in auto)
  have n: "isl (fst (input_loop (map Byte bs @ map Byte ([10, 10, b] @ rest)) [] 1 1 1))"
    by (rule input_loop_prefix) (use assms tail_newlines in auto)
  have m: "isl (fst (input_loop (map Byte bs @ map Byte ([10, 32, b] @ rest)) [] 1 1 1))"
    by (rule input_loop_prefix) (use assms tail_leading_space in auto)
  have ls: "input (Some (map Byte ([32, b] @ rest))) [] = (Inl ERLSBW, [])"
    using assms by (simp add: input_def setWord_def)
  have ln: "input (Some (map Byte ([10, b] @ rest))) [] = (Inl ERLSBL, [])"
    using assms by (simp add: input_def setWord_def)
  have tr: "input (Some (map Byte (t @ seps))) [] = input (Some (map Byte t)) []"
    if "set seps \<subseteq> {32, 10}" for t
    using input_loop_trailing [OF that, of "map Byte t" "[]" 1 1 1] by (simp add: input_def)
  have rt: "input (Some (map Byte (render d))) [] = (Inr None, d)" if "wf_doc d"
    using input_loop_doc [OF that, of "[]" "[]"] by (simp add: input_def)
  have o: "output_text (LineStorage d) = Some (render d)"
    using output_lines_eq [of "[]" d "[]"] by (simp add: output_text_def)
  from s n m ls ln tr rt o show ?thesis
    by (simp add: input_def)
qed

theorem input_rejects_empty_words_and_lines_witness:
  "isl (fst (input (Some (map Byte [97, 32, 32, 98])) [])) \<and>
   isl (fst (input (Some (map Byte [97, 10, 10, 98])) [])) \<and>
   isl (fst (input (Some (map Byte [97, 10, 32, 98])) [])) \<and>
   input (Some (map Byte [32, 98])) [] = (Inl ERLSBW, []) \<and>
   input (Some (map Byte [10, 98])) [] = (Inl ERLSBL, []) \<and>
   input (Some (map Byte [97, 32, 10])) [] = input (Some (map Byte [97])) [] \<and>
   input (Some (map Byte [97, 10, 32, 10])) [] = (Inr None, [[[97]]]) \<and>
   output_text (LineStorage [[[97]]]) = Some [97, 10]"
proof -
  have w: "wf_doc [[[97]]]"
    by (simp add: wf_doc_def wf_line_def wf_word_def)
  show ?thesis
    using input_rejects_empty_words_and_lines [of 98 "[97]" "[]" "[32, 10]" "[97]" "[[[97]]]"] w
    by (simp add: render_def)
qed

text \<open>
  Claim C2 says that \<^verbatim>\<open>input\<close> accepts every text with empty words or empty lines.
  It does not: on the text \<^verbatim>\<open>a  b\<close>, with two spaces, the call
  \<^verbatim>\<open>setWord(1, 3, 1, 'b')\<close> panics with ERLSBW, the storage holding the word
  \<^verbatim>\<open>a\<close> alone.
\<close>

theorem input_empty_word_panics:
  "input (Some (map Byte [97, 32, 32, 98])) [] = (Inl ERLSBW, [[[97]]])"
  by (simp add: input_def setWord_def index_def)

end
